theory Spec2Isabelle
  imports Complex_Main
begin

section \<open>Data model\<close>

text \<open>
  The Python services of the repository are embedded as HOL functions. Python exceptions
  are values of a sum type, the loops are recursive functions, and everything outside the
  process (the Spring server, the file system, the extraction handlers) is an explicit
  parameter of the function that calls it.
\<close>

datatype error =
    ValueError
  | SpringIntegrationError
  | DirectoryInspectionError
  | OtherException

text \<open>\<open>ParaBucket\<close> of \<open>app/schemas/organized_file.py\<close>.\<close>

datatype ParaBucket = PROJECTS | AREAS | RESOURCES | ARCHIVE

section \<open>Automatic PARA classification\<close>

text \<open>
  The branch of \<open>to_organized_file_entry\<close> that picks the bucket:
  \<^verbatim>\<open>
  if entry.is_development:      para_bucket = ParaBucket.PROJECTS
  elif entry.keywords:          para_bucket = ParaBucket.RESOURCES
  else:                         para_bucket = ParaBucket.ARCHIVE
  \<close>
  A Python list is truthy exactly when it is not empty.
\<close>

definition para_bucket :: "bool \<Rightarrow> string list \<Rightarrow> ParaBucket" where
  "para_bucket is_development keywords =
     (if is_development then PROJECTS
      else if keywords \<noteq> [] then RESOURCES
      else ARCHIVE)"

section \<open>Batch builder\<close>

text \<open>
  \<^verbatim>\<open>
  def _chunk_files(files, batch_size):
      batches = []
      for i in range(0, len(files), batch_size):
          batches.append(files[i : i + batch_size])
      return batches
  \<close>
  \<open>chunk_loop\<close> is the \<open>for\<close> loop from index \<open>i\<close> on, for a positive step. Python's
  \<open>range\<close> raises \<open>ValueError\<close> for a step of zero and is empty for a negative step and a
  start of zero.
\<close>

function chunk_loop :: "'a list \<Rightarrow> nat \<Rightarrow> nat \<Rightarrow> 'a list list" where
  "chunk_loop files batch_size i =
     (if batch_size = 0 \<or> length files \<le> i then []
      else take batch_size (drop i files) # chunk_loop files batch_size (i + batch_size))"
  by pat_completeness auto
termination
  by (relation "measure (\<lambda>(files, batch_size, i). length files - i)") auto

declare chunk_loop.simps [simp del]

definition chunk_files :: "'a list \<Rightarrow> int \<Rightarrow> error + 'a list list" where
  "chunk_files files batch_size =
     (if batch_size = 0 then Inl ValueError
      else if batch_size < 0 then Inr []
      else Inr (chunk_loop files (nat batch_size) 0))"

section \<open>Schemas\<close>

text \<open>
  \<open>app/schemas/organization.py\<close>. Confidence values are the decimal literals of the
  source; a \<open>datetime\<close> is the number of seconds since the epoch, in UTC.
\<close>

datatype OrganizationStrategy = COST_EFFECTIVE | BALANCED | PREMIUM

record FileEntry =
  relative_path :: string
  absolute_path :: string
  is_directory :: bool
  size_bytes :: nat
  modified_at :: real
  is_development :: bool
  file_type :: "string option"
  "keywords" :: "string list"
  caption :: "string option"
  confidence :: real

record SnapshotBatchRequest =
  task_id :: string
  batch_number :: nat
  total_batches :: nat
  directory :: string
  user_id :: string
  strategy :: OrganizationStrategy
  max_cost_budget :: "real option"
  generated_at :: real
  entries :: "FileEntry list"

text \<open>
  The field constraints pydantic checks when a \<open>SnapshotBatchRequest\<close> is built
  (\<open>ge=1\<close> on both counters, \<open>ge=0\<close> on the budget); a violation raises a
  \<open>ValidationError\<close>, which is not a \<open>SpringIntegrationError\<close>.
\<close>

definition validate_request :: "SnapshotBatchRequest \<Rightarrow> error + SnapshotBatchRequest" where
  "validate_request r =
     (if 1 \<le> batch_number r \<and> 1 \<le> total_batches r
         \<and> (case max_cost_budget r of None \<Rightarrow> True | Some b \<Rightarrow> 0 \<le> b)
      then Inr r else Inl OtherException)"

section \<open>Directory traversal and extraction\<close>

text \<open>
  A path met by \<open>directory.rglob("*")\<close>, with what \<open>pathlib\<close> answers about it:
  \<open>path.name\<close>, \<open>path.suffix\<close>, \<open>str(path.relative_to(directory))\<close>, \<open>str(path)\<close>,
  \<open>path.is_file()\<close>, \<open>path.is_dir()\<close> and \<open>path.stat()\<close>, which gives \<open>st_size\<close> and
  \<open>st_mtime\<close> or raises \<open>OSError\<close> (\<open>None\<close>), as it does for a dangling symbolic link.
  \<open>is_file()\<close> and \<open>is_dir()\<close> answer \<open>False\<close> for a path that does not exist; where
  they would raise (a directory that may not be searched) \<open>stat()\<close> raises as well, and
  the path gets no record either way.
\<close>

record path =
  name :: string
  suffix :: string
  relative_to :: string
  str :: string
  is_file :: bool
  is_dir :: bool
  stat :: "(nat \<times> real) option"

text \<open>
  The extraction handlers (\<open>app.extraction.handlers\<close>) are not part of the sources at
  hand: each is a parameter, a function of the path string that returns or raises.
  \<open>Raises\<close> stands for raising an instance of \<open>Exception\<close>, which is what both
  \<open>except Exception\<close> clauses of the traversal catch. A \<open>BaseException\<close> outside
  \<open>Exception\<close> (\<open>KeyboardInterrupt\<close>, \<open>SystemExit\<close>, a cancellation) is caught by
  neither and ends the traversal; it is not an outcome of this type. A handler that
  returns gives a value of its declared type.
\<close>

datatype 'a outcome = Raises | Returns 'a

record image_highlights =
  ocr_lines :: "string list"
  highlights_caption :: "string option"

record handlers =
  extract_pdf_keywords :: "string \<Rightarrow> string list outcome"
  extract_image_highlights :: "string \<Rightarrow> image_highlights outcome"
  build_summary_text :: "string \<Rightarrow> (string option \<times> string) outcome"

text \<open>\<open>str.lower\<close> on ASCII letters.\<close>

definition lower_char :: "char \<Rightarrow> char" where
  "lower_char c =
     (case map_of (zip ''ABCDEFGHIJKLMNOPQRSTUVWXYZ'' ''abcdefghijklmnopqrstuvwxyz'') c of
        Some l \<Rightarrow> l
      | None \<Rightarrow> c)"

definition lower :: "string \<Rightarrow> string" where
  "lower s = map lower_char s"

definition type_mapping :: "(string \<times> string) list" where
  "type_mapping =
     [(''.pdf'', ''pdf''), (''.png'', ''image''), (''.jpg'', ''image''), (''.jpeg'', ''image''),
      (''.webp'', ''image''), (''.xlsx'', ''xlsx''), (''.xls'', ''xlsx''), (''.csv'', ''csv''),
      (''.md'', ''markdown''), (''.txt'', ''text''), (''.py'', ''python''),
      (''.js'', ''javascript''), (''.ts'', ''typescript'')]"

definition get_file_type :: "path \<Rightarrow> string option" where
  "get_file_type p = map_of type_mapping (lower (suffix p))"

text \<open>The types for which \<open>_collect_and_extract_files\<close> has a branch that calls a handler.\<close>

definition has_handler :: "string option \<Rightarrow> bool" where
  "has_handler ft = (ft = Some ''pdf'' \<or> ft = Some ''image'' \<or> ft = Some ''xlsx'' \<or> ft = Some ''csv'')"

text \<open>
  The inner \<open>try\<close> of \<open>_collect_and_extract_files\<close>: the keywords, the caption and the
  confidence after it.
  \<^verbatim>\<open>
  keywords = []; caption = None; confidence = 0.0
  if path.is_file():
      try:
          if file_type == "pdf":
              keywords = extract_pdf_keywords(str(path))
              confidence = 0.9
          elif file_type == "image":
              result = extract_image_highlights(str(path))
              keywords = result.ocr_lines
              caption = result.caption
              confidence = 0.85
          elif file_type in ("xlsx", "csv"):
              caption, _ = build_summary_text(str(path))
              keywords = [caption] if caption else []
              confidence = 0.8
      except Exception as exc:
          logger.warning(...)
  \<close>
  A handler that raises leaves the three variables as they were: the call is the first
  statement of its branch and the \<open>except\<close> only logs. A caption is truthy when it is
  a string that is not empty.
\<close>

definition extract_metadata ::
  "handlers \<Rightarrow> path \<Rightarrow> string option \<Rightarrow> string list \<times> string option \<times> real" where
  "extract_metadata h p ft =
     (if is_file p then
        if ft = Some ''pdf'' then
          (case extract_pdf_keywords h (str p) of
             Returns ks \<Rightarrow> (ks, None, 0.9)
           | Raises \<Rightarrow> ([], None, 0))
        else if ft = Some ''image'' then
          (case extract_image_highlights h (str p) of
             Returns res \<Rightarrow> (ocr_lines res, highlights_caption res, 0.85)
           | Raises \<Rightarrow> ([], None, 0))
        else if ft = Some ''xlsx'' \<or> ft = Some ''csv'' then
          (case build_summary_text h (str p) of
             Returns (cap, _) \<Rightarrow>
               ((case cap of None \<Rightarrow> [] | Some c \<Rightarrow> if c = [] then [] else [c]), cap, 0.8)
           | Raises \<Rightarrow> ([], None, 0))
        else ([], None, 0)
      else ([], None, 0))"

text \<open>
  The body of the \<open>for\<close> loop for one path:
  \<^verbatim>\<open>
  for path in directory.rglob("*"):
      if path.name.startswith("."):
          continue
      try:
          file_type = _get_file_type(path)
          ...                                   # the extraction above
          files.append(FileEntry(
              relative_path=str(path.relative_to(directory)), absolute_path=str(path),
              is_directory=path.is_dir(), size_bytes=path.stat().st_size,
              modified_at=datetime.fromtimestamp(path.stat().st_mtime, tz=timezone.utc),
              file_type=file_type, keywords=keywords[:5], caption=caption,
              confidence=confidence))
      except Exception as exc:
          logger.warning(...)
          continue
  \<close>
  Nothing for a name that starts with a dot, nothing when building the entry raises (the
  outer \<open>except\<close> logs and goes on; \<open>path.stat()\<close> and \<open>datetime.fromtimestamp\<close>
  are what can raise), the entry otherwise. \<open>is_development\<close> is not passed to the
  constructor and takes its default.

  \<open>datetime.fromtimestamp(t, tz=timezone.utc)\<close> rounds \<open>t\<close> to microseconds, half to
  even, and raises (\<open>ValueError\<close>, \<open>OverflowError\<close> or \<open>OSError\<close>) unless the result
  lies in the years 1 to 9999, that is from second \<open>-62135596800\<close> up to, and not
  including, second \<open>253402300800\<close>. The timestamp is taken as an exact real, on a
  platform whose \<open>gmtime\<close> covers that range.
\<close>

definition round_half_even :: "real \<Rightarrow> int" where
  "round_half_even x =
     (let f = \<lfloor>x\<rfloor>; d = x - of_int f
      in if d < 1 / 2 then f else if 1 / 2 < d then f + 1 else if even f then f else f + 1)"

definition fromtimestamp :: "real \<Rightarrow> real option" where
  "fromtimestamp t =
     (let us = round_half_even (t * 1000000)
      in if - 62135596800000000 \<le> us \<and> us < 253402300800000000
         then Some (of_int us / 1000000) else None)"

definition hidden :: "path \<Rightarrow> bool" where
  "hidden p = (case name p of [] \<Rightarrow> False | c # _ \<Rightarrow> c = CHR ''.'')"

definition file_entry :: "handlers \<Rightarrow> path \<Rightarrow> FileEntry option" where
  "file_entry h p =
     (if hidden p then None
      else
        (case extract_metadata h p (get_file_type p) of
           (ks, cap, conf) \<Rightarrow>
             (case stat p of
                None \<Rightarrow> None
              | Some (st_size, st_mtime) \<Rightarrow>
                  (case fromtimestamp st_mtime of
                     None \<Rightarrow> None
                   | Some mtime \<Rightarrow>
                       Some \<lparr>relative_path = relative_to p, absolute_path = str p,
                             is_directory = is_dir p, size_bytes = st_size,
                             modified_at = mtime, is_development = False,
                             file_type = get_file_type p, keywords = take 5 ks,
                             caption = cap, confidence = conf\<rparr>))))"

fun collect_and_extract_files :: "handlers \<Rightarrow> path list \<Rightarrow> FileEntry list" where
  "collect_and_extract_files h [] = []"
| "collect_and_extract_files h (p # ps) =
     (case file_entry h p of
        None \<Rightarrow> collect_and_extract_files h ps
      | Some e \<Rightarrow> e # collect_and_extract_files h ps)"


section \<open>Delivery client\<close>

text \<open>
  \<open>app/services/spring_integration.py\<close>. What one \<open>client.post\<close> gives back is either
  a response (its status code, the \<open>retryAfter\<close> field of its body when there is one,
  and whether the body can be read by the branch that reads it: \<open>response.json()\<close> and the
  \<open>SnapshotBatchResponse\<close> constructor both raise on a body they cannot read) or an
  exception of \<open>httpx\<close> (\<open>TimeoutException\<close> is tried first, every other
  \<open>RequestError\<close> second) or some other exception.

  The server is not part of the repository. It is a parameter: the answer to the
  \<open>n\<close>-th request of a run. Since the requests of a run are fixed by the answers to the
  earlier ones, this covers every server.
\<close>

datatype http_result =
    Response nat "nat option" bool
  | TimeoutException
  | RequestError
  | Raised

type_synonym spring_server = "nat \<Rightarrow> http_result"

record SpringClient =
  base_url :: string
  api_key :: string
  timeout :: real
  max_retries :: int

text \<open>The defaults of \<open>SpringClient.__init__\<close>.\<close>

definition spring_client :: "string \<Rightarrow> string \<Rightarrow> SpringClient" where
  "spring_client url key =
     \<lparr>base_url = url, api_key = key, timeout = 30, max_retries = 3\<rparr>"

text \<open>
  What the client does is recorded as a list of events in the order they happen: a request
  (with the attempt number and what came back) and a call of \<open>asyncio.sleep\<close> (in
  seconds).
\<close>

datatype event =
    Post SnapshotBatchRequest nat http_result
  | Sleep nat

text \<open>
  One pass through the body of \<open>for attempt in range(self.max_retries)\<close>, after the
  request has been answered: return, raise, or go to the next attempt, after a sleep or
  without one.
  \<^verbatim>\<open>
  if response.status_code == 200:
      return SnapshotBatchResponse(**response.json())
  elif response.status_code == 429:
      wait_time = 2 ** attempt
      await asyncio.sleep(wait_time)
      continue
  elif response.status_code >= 400:
      error_data = response.json()
      raise SpringIntegrationError(...)
  except httpx.TimeoutException as exc:
      if attempt == self.max_retries - 1:
          raise SpringIntegrationError(...) from exc
      await asyncio.sleep(2 ** attempt)
  except httpx.RequestError as exc:
      if attempt == self.max_retries - 1:
          raise SpringIntegrationError(...) from exc
      await asyncio.sleep(2 ** attempt)
  \<close>
  A status that is none of 200, 429 and 400 or more falls through the chain: the loop goes
  on without a sleep.
\<close>

datatype step = Return | Raise error | Continue "nat option"

definition attempt_step :: "SpringClient \<Rightarrow> nat \<Rightarrow> http_result \<Rightarrow> step" where
  "attempt_step self attempt res =
     (case res of
        Response status_code retry_after readable \<Rightarrow>
          if status_code = 200 then (if readable then Return else Raise OtherException)
          else if status_code = 429 then Continue (Some (2 ^ attempt))
          else if 400 \<le> status_code then
            (if readable then Raise SpringIntegrationError else Raise OtherException)
          else Continue None
      | TimeoutException \<Rightarrow>
          if int attempt = max_retries self - 1 then Raise SpringIntegrationError
          else Continue (Some (2 ^ attempt))
      | RequestError \<Rightarrow>
          if int attempt = max_retries self - 1 then Raise SpringIntegrationError
          else Continue (Some (2 ^ attempt))
      | Raised \<Rightarrow> Raise OtherException)"

fun sleep :: "nat option \<Rightarrow> event list" where
  "sleep None = []"
| "sleep (Some seconds) = [Sleep seconds]"

text \<open>
  The loop from attempt \<open>attempt\<close> on, \<open>n\<close> requests having been made so far in the run.
  It gives the result of the call, its events and the number of requests made after it.
  When the range is used up the statement after the loop raises.
\<close>

function send_attempts ::
  "spring_server \<Rightarrow> SpringClient \<Rightarrow> SnapshotBatchRequest \<Rightarrow> nat \<Rightarrow> nat
     \<Rightarrow> (error + unit) \<times> event list \<times> nat" where
  "send_attempts srv self req attempt n =
     (if max_retries self \<le> int attempt then (Inl SpringIntegrationError, [], n)
      else
        (case attempt_step self attempt (srv n) of
           Return \<Rightarrow> (Inr (), [Post req attempt (srv n)], Suc n)
         | Raise e \<Rightarrow> (Inl e, [Post req attempt (srv n)], Suc n)
         | Continue wait \<Rightarrow>
             (case send_attempts srv self req (Suc attempt) (Suc n) of
                (r, ev, n') \<Rightarrow> (r, Post req attempt (srv n) # sleep wait @ ev, n'))))"
  by pat_completeness auto
termination
  by (relation "measure (\<lambda>(srv, self, req, attempt, n). nat (max_retries self - int attempt))")
     auto

declare send_attempts.simps [simp del]

definition send_snapshot_batch ::
  "spring_server \<Rightarrow> SpringClient \<Rightarrow> SnapshotBatchRequest \<Rightarrow> nat
     \<Rightarrow> (error + unit) \<times> event list \<times> nat" where
  "send_snapshot_batch srv self req n = send_attempts srv self req 0 n"

section \<open>Sequential delivery of the batches of a task\<close>

text \<open>
  \<open>_send_batches_to_spring\<close> of \<open>app/routers/organization.py\<close>:
  \<^verbatim>\<open>
  total_batches = len(batches)
  for batch_num, batch_files in enumerate(batches, start=1):
      try:
          batch_request = SnapshotBatchRequest(task_id=task_id, batch_number=batch_num,
              total_batches=total_batches, ..., generated_at=datetime.now(timezone.utc),
              entries=batch_files)
          response = await spring_client.send_snapshot_batch(batch_request)
      except SpringIntegrationError as exc:
          logger.error(...)
          break
      except Exception as exc:
          logger.exception(...)
          break
  \<close>
  The result is the list of the calls of \<open>send_snapshot_batch\<close> it made, in the order it
  made them, each with the request, the result and the events of the call. Both
  \<open>except\<close> clauses end the loop with \<open>break\<close>; the construction of the request is
  inside the \<open>try\<close>. In \<open>send_loop\<close> the argument \<open>mk\<close> is the constructor call with
  the arguments of the task filled in, and \<open>now\<close> gives the clock reading for each batch.
\<close>

datatype delivery =
  Delivery (request: SnapshotBatchRequest) (result: "error + unit") (events: "event list")

fun send_loop ::
  "spring_server \<Rightarrow> SpringClient \<Rightarrow> (nat \<Rightarrow> FileEntry list \<Rightarrow> SnapshotBatchRequest)
     \<Rightarrow> nat \<Rightarrow> FileEntry list list \<Rightarrow> nat \<Rightarrow> delivery list \<times> nat" where
  "send_loop srv self mk batch_num [] n = ([], n)"
| "send_loop srv self mk batch_num (batch_files # rest) n =
     (case validate_request (mk batch_num batch_files) of
        Inl e \<Rightarrow> ([], n)
      | Inr batch_request \<Rightarrow>
          (case send_snapshot_batch srv self batch_request n of
             (Inl e, ev, n') \<Rightarrow> ([Delivery batch_request (Inl e) ev], n')
           | (Inr response, ev, n') \<Rightarrow>
               (case send_loop srv self mk (Suc batch_num) rest n' of
                  (calls, n'') \<Rightarrow> (Delivery batch_request (Inr response) ev # calls, n''))))"

definition send_batches_to_spring ::
  "spring_server \<Rightarrow> (nat \<Rightarrow> real) \<Rightarrow> string \<Rightarrow> string \<Rightarrow> string \<Rightarrow> FileEntry list list
     \<Rightarrow> OrganizationStrategy \<Rightarrow> real option \<Rightarrow> SpringClient \<Rightarrow> nat \<Rightarrow> delivery list \<times> nat" where
  "send_batches_to_spring srv now tid dir uid batches strat budget client n =
     send_loop srv client
       (\<lambda>batch_num batch_files.
          \<lparr>task_id = tid, batch_number = batch_num, total_batches = length batches,
           directory = dir, user_id = uid, strategy = strat, max_cost_budget = budget,
           generated_at = now batch_num, entries = batch_files\<rparr>)
       1 batches n"

section \<open>Task storage and the \<open>/organize\<close> endpoint\<close>

text \<open>
  \<open>_task_storage\<close> is a dictionary from task ids to the dictionary written by
  \<open>organize_folder\<close>.
\<close>

record task =
  status :: string
  task_directory :: string
  total_files :: nat
  task_total_batches :: nat
  created_at :: real

type_synonym task_storage = "string \<rightharpoonup> task"

record OrganizationRequest =
  request_path :: string
  request_strategy :: OrganizationStrategy
  request_max_cost_budget :: "real option"

definition get_batch_size :: "OrganizationStrategy \<Rightarrow> int" where
  "get_batch_size s = (case s of COST_EFFECTIVE \<Rightarrow> 100 | BALANCED \<Rightarrow> 50 | PREMIUM \<Rightarrow> 20)"

text \<open>
  The file system: \<open>resolve_directory\<close> (it gives the directory or raises
  \<open>DirectoryInspectionError\<close>) and the listing \<open>rglob("*")\<close> of a directory.
\<close>

record file_system =
  resolve_directory :: "string \<Rightarrow> error + string"
  rglob :: "string \<Rightarrow> path list"

text \<open>
  What \<open>organize_folder\<close> answers: the 202 response with \<open>taskId\<close>, \<open>status\<close>,
  \<open>totalFiles\<close> and \<open>totalBatches\<close>, or an \<open>HTTPException\<close> with its status code
  (400 for a \<open>DirectoryInspectionError\<close>, 500 for any other exception).
\<close>

datatype organize_response =
    JSONResponse nat string string nat nat
  | HTTPException nat

text \<open>The arguments of the coroutine handed to \<open>asyncio.create_task\<close>.\<close>

record background =
  bg_task_id :: string
  bg_directory :: string
  bg_user_id :: string
  bg_batches :: "FileEntry list list"
  bg_strategy :: OrganizationStrategy
  bg_max_cost_budget :: "real option"

text \<open>
  \<open>organize_folder\<close>: the response, the task storage after it and the coroutine it
  scheduled. \<open>create_task\<close> only schedules: the coroutine starts when the handler has
  returned, after the entry has been stored.
\<close>

definition organize_folder ::
  "file_system \<Rightarrow> handlers \<Rightarrow> string \<Rightarrow> real \<Rightarrow> OrganizationRequest \<Rightarrow> task_storage
     \<Rightarrow> organize_response \<times> task_storage \<times> background option" where
  "organize_folder fs h tid now req storage =
     (case resolve_directory fs (request_path req) of
        Inl e \<Rightarrow>
          (HTTPException (if e = DirectoryInspectionError then 400 else 500), storage, None)
      | Inr dir \<Rightarrow>
          (let files = collect_and_extract_files h (rglob fs dir) in
           case chunk_files files (get_batch_size (request_strategy req)) of
             Inl e \<Rightarrow> (HTTPException 500, storage, None)
           | Inr batches \<Rightarrow>
               (JSONResponse 202 tid ''PROCESSING'' (length files) (length batches),
                storage(tid \<mapsto> \<lparr>status = ''PROCESSING'', task_directory = dir,
                                 total_files = length files,
                                 task_total_batches = length batches, created_at = now\<rparr>),
                Some \<lparr>bg_task_id = tid, bg_directory = dir,
                      bg_user_id = ''user_'' @ take 12 tid, bg_batches = batches,
                      bg_strategy = request_strategy req,
                      bg_max_cost_budget = request_max_cost_budget req\<rparr>)))"

text \<open>
  A whole task: the handler, then the scheduled coroutine. \<open>_send_batches_to_spring\<close> has
  no statement that reads or writes \<open>_task_storage\<close>, so the storage after the task is
  the storage the handler left.
\<close>

definition run_task ::
  "file_system \<Rightarrow> handlers \<Rightarrow> spring_server \<Rightarrow> (nat \<Rightarrow> real) \<Rightarrow> SpringClient \<Rightarrow> string \<Rightarrow> real
     \<Rightarrow> OrganizationRequest \<Rightarrow> task_storage
     \<Rightarrow> organize_response \<times> task_storage \<times> delivery list" where
  "run_task fs h srv clock client tid now req storage =
     (case organize_folder fs h tid now req storage of
        (resp, storage', None) \<Rightarrow> (resp, storage', [])
      | (resp, storage', Some bg) \<Rightarrow>
          (resp, storage',
           fst (send_batches_to_spring srv clock (bg_task_id bg) (bg_directory bg)
                  (bg_user_id bg) (bg_batches bg) (bg_strategy bg) (bg_max_cost_budget bg)
                  client 0)))"

section \<open>Frontend client\<close>

text \<open>
  \<open>frontend-client.ts\<close>. A JavaScript \<open>number\<close> is a finite value, one of the two
  infinities or \<open>NaN\<close>. \<open>Math.min\<close> and \<open>Math.max\<close> give \<open>NaN\<close> when an argument
  is \<open>NaN\<close>; they do not round, so the finite values are modelled as reals.
\<close>

datatype number = NaN | NegInfinity | Finite real | Infinity

fun Math_min :: "number \<Rightarrow> number \<Rightarrow> number" where
  "Math_min NaN _ = NaN"
| "Math_min _ NaN = NaN"
| "Math_min NegInfinity _ = NegInfinity"
| "Math_min _ NegInfinity = NegInfinity"
| "Math_min Infinity y = y"
| "Math_min x Infinity = x"
| "Math_min (Finite x) (Finite y) = Finite (min x y)"

fun Math_max :: "number \<Rightarrow> number \<Rightarrow> number" where
  "Math_max NaN _ = NaN"
| "Math_max _ NaN = NaN"
| "Math_max Infinity _ = Infinity"
| "Math_max _ Infinity = Infinity"
| "Math_max NegInfinity y = y"
| "Math_max x NegInfinity = x"
| "Math_max (Finite x) (Finite y) = Finite (max x y)"

text \<open>
  The value appended as \<open>page_size\<close> by \<open>inspectAndOrganizeFolder\<close> and by
  \<open>inspectAndOrganizeWithGeneration\<close>; an omitted argument (\<open>None\<close>) takes the default
  of the parameter.
  \<^verbatim>\<open>
  pageSize: number = 100
  const validPageSize = Math.max(10, Math.min(pageSize, 500));
  url.searchParams.append("page_size", validPageSize.toString());
  \<close>
\<close>

definition inspectAndOrganizeFolder_page_size :: "number option \<Rightarrow> number" where
  "inspectAndOrganizeFolder_page_size arg =
     (let pageSize = (case arg of None \<Rightarrow> Finite 100 | Some v \<Rightarrow> v)
      in Math_max (Finite 10) (Math_min pageSize (Finite 500)))"

definition inspectAndOrganizeWithGeneration_page_size :: "number option \<Rightarrow> number" where
  "inspectAndOrganizeWithGeneration_page_size arg =
     (let pageSize = (case arg of None \<Rightarrow> Finite 100 | Some v \<Rightarrow> v)
      in Math_max (Finite 10) (Math_min pageSize (Finite 500)))"

text \<open>Whether a number lies in the documented range of the page size, 10 to 500.\<close>

fun in_page_range :: "number \<Rightarrow> bool" where
  "in_page_range (Finite x) = (10 \<le> x \<and> x \<le> 500)"
| "in_page_range _ = False"

section \<open>Reading the events of a call\<close>

text \<open>
  The requests of an event list, each with its attempt number and its answer, and the
  sleeps of an event list, in order.
\<close>

fun posts :: "event list \<Rightarrow> (SnapshotBatchRequest \<times> nat \<times> http_result) list" where
  "posts [] = []"
| "posts (Post q a x # ev) = (q, a, x) # posts ev"
| "posts (Sleep d # ev) = posts ev"

fun sleeps :: "event list \<Rightarrow> nat list" where
  "sleeps [] = []"
| "sleeps (Post q a x # ev) = sleeps ev"
| "sleeps (Sleep d # ev) = d # sleeps ev"

text \<open>
  The two \<open>except\<close> clauses of \<open>send_snapshot_batch\<close>: a timeout, or any other
  request error of \<open>httpx\<close> (connection refused, name resolution).
\<close>

definition transport_failure :: "http_result \<Rightarrow> bool" where
  "transport_failure x = (x = TimeoutException \<or> x = RequestError)"

text \<open>
  What comes after a request in the events of a call with result \<open>r\<close>, by what the loop
  body does with the answer: nothing after a return or a raise; otherwise the sleep, then
  the next attempt for the same request if the range has one left, and the raise after the
  loop if not.
\<close>

definition after_post ::
  "SpringClient \<Rightarrow> SnapshotBatchRequest \<Rightarrow> (error + unit) \<Rightarrow> nat \<Rightarrow> http_result
     \<Rightarrow> event list \<Rightarrow> bool" where
  "after_post self req r a x rest =
     (case attempt_step self a x of
        Return \<Rightarrow> rest = [] \<and> r = Inr ()
      | Raise e \<Rightarrow> rest = [] \<and> r = Inl e
      | Continue w \<Rightarrow>
          (\<exists>ev'. rest = sleep w @ ev' \<and>
             (if int (Suc a) < max_retries self then \<exists>y ev''. ev' = Post req (Suc a) y # ev''
              else ev' = [] \<and> r = Inl SpringIntegrationError)))"

section \<open>The statements of the spec as predicates\<close>

text \<open>
  The spec's rate-limit scenario, in its own words: after a 429 answer that carries
  \<open>retryAfter = r\<close>, the client waits at least \<open>r\<close> before the next attempt.
  \<open>wait_before_next_post\<close> adds up the sleeps up to the next request (\<open>None\<close> when
  no request follows).
\<close>

fun wait_before_next_post :: "event list \<Rightarrow> nat option" where
  "wait_before_next_post [] = None"
| "wait_before_next_post (Post q a x # ev) = Some 0"
| "wait_before_next_post (Sleep d # ev) = map_option (\<lambda>w. d + w) (wait_before_next_post ev)"

fun honours_retry_after :: "event list \<Rightarrow> bool" where
  "honours_retry_after [] = True"
| "honours_retry_after (Sleep d # ev) = honours_retry_after ev"
| "honours_retry_after (Post q a x # ev) =
     ((case x of
         Response status_code (Some r) readable \<Rightarrow>
           (if status_code = 429 then
              (case wait_before_next_post ev of None \<Rightarrow> True | Some w \<Rightarrow> r \<le> w)
            else True)
       | _ \<Rightarrow> True)
      \<and> honours_retry_after ev)"

text \<open>
  The spec's backoff, in its own words: the delays are capped, that is, none of the sleeps
  of a call is longer than the cap.
\<close>

definition capped :: "nat \<Rightarrow> event list \<Rightarrow> bool" where
  "capped cap ev = list_all (\<lambda>d. d \<le> cap) (sleeps ev)"

text \<open>
  The spec's task tracker, in its own words: the overall status of a task is Completed,
  and every batch of the task was accepted.
\<close>

definition completed :: "task_storage \<Rightarrow> string \<Rightarrow> bool" where
  "completed storage tid = (map_option status (storage tid) = Some ''COMPLETED'')"

definition all_batches_accepted :: "task_storage \<Rightarrow> string \<Rightarrow> delivery list \<Rightarrow> bool" where
  "all_batches_accepted storage tid calls =
     (map_option task_total_batches (storage tid) = Some (length calls)
      \<and> list_all (\<lambda>c. result c = Inr ()) calls)"

text \<open>
  The handler that \<open>_collect_and_extract_files\<close> calls for a path raises an
  \<open>Exception\<close> (a handler is called for a regular file only).
\<close>

definition handler_raises :: "handlers \<Rightarrow> path \<Rightarrow> bool" where
  "handler_raises h p =
     (is_file p \<and>
      (get_file_type p = Some ''pdf'' \<and> extract_pdf_keywords h (str p) = Raises
       \<or> get_file_type p = Some ''image'' \<and> extract_image_highlights h (str p) = Raises
       \<or> (get_file_type p = Some ''xlsx'' \<or> get_file_type p = Some ''csv'')
           \<and> build_summary_text h (str p) = Raises))"

section \<open>Sample inputs\<close>

text \<open>
  Concrete requests, servers, paths and handlers, for the theorems that evaluate the
  functions on an input.
\<close>

definition example_request :: SnapshotBatchRequest where
  "example_request =
     \<lparr>task_id = ''task'', batch_number = 1, total_batches = 1, directory = ''/data'',
      user_id = ''user_task'', strategy = BALANCED, max_cost_budget = None, generated_at = 0,
      entries = []\<rparr>"

definition example_client :: SpringClient where
  "example_client = spring_client ''http://localhost:8080'' ''key''"

definition example_entry :: "string \<Rightarrow> FileEntry" where
  "example_entry nm =
     \<lparr>relative_path = nm, absolute_path = ''/data/'' @ nm, is_directory = False,
      size_bytes = 1, modified_at = 0, is_development = False, file_type = None,
      keywords = [], caption = None, confidence = 0\<rparr>"

definition example_batches :: "FileEntry list list" where
  "example_batches = [[example_entry ''a''], [example_entry ''b''], [example_entry ''c'']]"

definition example_delivery ::
  "spring_server \<Rightarrow> FileEntry list list \<Rightarrow> delivery list \<times> nat" where
  "example_delivery srv batches =
     send_batches_to_spring srv (\<lambda>k. 0) ''task'' ''/data'' ''user_task'' batches
       BALANCED None example_client 0"

definition rate_limited_once :: spring_server where
  "rate_limited_once k = (if k = 0 then Response 429 (Some 5) True else Response 200 None True)"

definition second_batch_rejected :: spring_server where
  "second_batch_rejected k = (if k = 0 then Response 200 None True else Response 400 None True)"

definition failing_handlers :: handlers where
  "failing_handlers =
     \<lparr>extract_pdf_keywords = (\<lambda>s. Raises), extract_image_highlights = (\<lambda>s. Raises),
      build_summary_text = (\<lambda>s. Raises)\<rparr>"

definition wordy_handlers :: handlers where
  "wordy_handlers =
     \<lparr>extract_pdf_keywords = (\<lambda>s. Returns [''k1'', ''k2'', ''k3'', ''k4'', ''k5'', ''k6'', ''k7'']),
      extract_image_highlights = (\<lambda>s. Raises),
      build_summary_text = (\<lambda>s. Returns (Some ''summary'', ''text''))\<rparr>"

definition regular_file :: "string \<Rightarrow> string \<Rightarrow> path" where
  "regular_file nm sfx =
     \<lparr>name = nm, suffix = sfx, relative_to = nm, str = ''/data/'' @ nm, is_file = True,
      is_dir = False, stat = Some (12, 0)\<rparr>"

definition dangling_link :: "string \<Rightarrow> string \<Rightarrow> path" where
  "dangling_link nm sfx =
     \<lparr>name = nm, suffix = sfx, relative_to = nm, str = ''/data/'' @ nm, is_file = False,
      is_dir = False, stat = None\<rparr>"

definition ancient_file :: "string \<Rightarrow> string \<Rightarrow> path" where
  "ancient_file nm sfx =
     \<lparr>name = nm, suffix = sfx, relative_to = nm, str = ''/data/'' @ nm, is_file = True,
      is_dir = False, stat = Some (12, 300000000000)\<rparr>"

definition always_timeout :: spring_server where
  "always_timeout k = TimeoutException"

definition patient_client :: "int \<Rightarrow> SpringClient" where
  "patient_client m = example_client\<lparr>max_retries := m\<rparr>"

definition example_fs :: file_system where
  "example_fs =
     \<lparr>resolve_directory =
        (\<lambda>s. if s = ''/data'' then Inr ''/data'' else Inl DirectoryInspectionError),
      rglob = (\<lambda>d. [regular_file ''a.txt'' ''.txt''])\<rparr>"

definition example_organization_request :: OrganizationRequest where
  "example_organization_request =
     \<lparr>request_path = ''/data'', request_strategy = BALANCED, request_max_cost_budget = None\<rparr>"

definition example_task :: "spring_server \<Rightarrow> organize_response \<times> task_storage \<times> delivery list" where
  "example_task srv =
     run_task example_fs failing_handlers srv (\<lambda>k. 0) example_client ''task'' 0
       example_organization_request Map.empty"

text \<open>The equations that evaluate the functions on the sample inputs.\<close>

lemmas ev_simps = send_snapshot_batch_def send_attempts.simps spring_client_def
  attempt_step_def example_client_def

lemmas run_simps = example_delivery_def send_batches_to_spring_def validate_request_def
  send_snapshot_batch_def send_attempts.simps spring_client_def attempt_step_def
  example_client_def example_batches_def

lemmas fs_simps = regular_file_def dangling_link_def ancient_file_def failing_handlers_def
  wordy_handlers_def file_entry_def hidden_def extract_metadata_def get_file_type_def
  type_mapping_def lower_def lower_char_def has_handler_def handler_raises_def
  fromtimestamp_def round_half_even_def

lemmas task_simps = example_task_def run_task_def organize_folder_def example_fs_def
  example_organization_request_def get_batch_size_def chunk_files_def chunk_loop.simps
  completed_def all_batches_accepted_def

section \<open>Properties of the classifier\<close>

text \<open>
  C4. The classifier is a total function of the development flag and the keyword list:
  a development entry goes to Projects, any other entry with at least one keyword goes to
  Resources, an entry with no keyword goes to Archive, and no input is sent to Areas.
  The three cases cover every input, and a HOL function gives equal inputs the same
  bucket.
\<close>

theorem para_bucket_total:
  "para_bucket True ks = PROJECTS
   \<and> para_bucket False (k # ks) = RESOURCES
   \<and> para_bucket False [] = ARCHIVE
   \<and> para_bucket d ks \<noteq> AREAS"
  by (simp add: para_bucket_def)

section \<open>Properties of the batch builder\<close>

lemma chunk_loop_Nil_iff:
  "chunk_loop fs b i = [] \<longleftrightarrow> b = 0 \<or> length fs \<le> i"
  by (subst chunk_loop.simps) simp

lemma chunk_loop_step:
  "0 < b \<Longrightarrow> i < length fs \<Longrightarrow>
     chunk_loop fs b i = take b (drop i fs) # chunk_loop fs b (i + b)"
  by (subst chunk_loop.simps) simp

lemma chunk_loop_concat:
  "0 < b \<Longrightarrow> concat (chunk_loop fs b i) = drop i fs"
proof (induction fs b i rule: chunk_loop.induct)
  case (1 files batch_size i)
  show ?case
  proof (cases "length files \<le> i")
    case True
    then show ?thesis by (simp add: chunk_loop_Nil_iff [THEN iffD2])
  next
    case False
    with 1 have "concat (chunk_loop files batch_size (i + batch_size)) = drop (i + batch_size) files"
      by simp
    moreover have "drop (i + batch_size) files = drop batch_size (drop i files)"
      by (simp add: add.commute)
    moreover have "chunk_loop files batch_size i
        = take batch_size (drop i files) # chunk_loop files batch_size (i + batch_size)"
      using False 1(2) by (simp only: chunk_loop_step)
    ultimately show ?thesis
      using append_take_drop_id [of batch_size "drop i files"] by (simp del: append_take_drop_id)
  qed
qed

lemma count_step:
  fixes d b :: nat
  assumes "0 < b" "0 < d"
  shows "(d + b - 1) div b = Suc ((d - b + b - 1) div b)"
proof -
  have e1: "d + b - 1 = (d - 1) + b" using assms by linarith
  have l: "(d + b - 1) div b = Suc ((d - 1) div b)"
    by (subst e1) (simp add: assms)
  show ?thesis
  proof (cases "b \<le> d")
    case True
    then have "d - b + b - 1 = d - 1" by linarith
    with l show ?thesis by (simp only:)
  next
    case False
    then have "d - b + b - 1 = b - 1" by linarith
    moreover have "(b - 1) div b = 0" "(d - 1) div b = 0" using False assms by simp_all
    ultimately show ?thesis using l by (simp only:)
  qed
qed

lemma chunk_loop_length:
  "0 < b \<Longrightarrow> length (chunk_loop fs b i) = (length fs - i + b - 1) div b"
proof (induction fs b i rule: chunk_loop.induct)
  case (1 files batch_size i)
  show ?case
  proof (cases "length files \<le> i")
    case True
    then show ?thesis using 1(2) by (simp add: chunk_loop_Nil_iff[THEN iffD2])
  next
    case False
    with 1 have ih: "length (chunk_loop files batch_size (i + batch_size))
        = (length files - (i + batch_size) + batch_size - 1) div batch_size"
      by simp
    have "length files - (i + batch_size) = length files - i - batch_size" by simp
    moreover have "chunk_loop files batch_size i
        = take batch_size (drop i files) # chunk_loop files batch_size (i + batch_size)"
      using False 1(2) by (simp only: chunk_loop_step)
    moreover have "0 < length files - i" using False by simp
    ultimately show ?thesis
      using ih count_step[of batch_size "length files - i"] 1(2) by simp
  qed
qed

lemma chunk_loop_sizes:
  "0 < b \<Longrightarrow> x \<in> set (chunk_loop fs b i) \<Longrightarrow> 1 \<le> length x \<and> length x \<le> b"
proof (induction fs b i rule: chunk_loop.induct)
  case (1 files batch_size i)
  show ?case
  proof (cases "length files \<le> i")
    case True
    then show ?thesis using 1(3) by (simp add: chunk_loop_Nil_iff[THEN iffD2])
  next
    case False
    then have "chunk_loop files batch_size i
        = take batch_size (drop i files) # chunk_loop files batch_size (i + batch_size)"
      using 1(2) by (simp only: chunk_loop_step)
    with 1 False show ?thesis by auto
  qed
qed

lemma chunk_loop_full:
  "0 < b \<Longrightarrow> x \<in> set (butlast (chunk_loop fs b i)) \<Longrightarrow> length x = b"
proof (induction fs b i rule: chunk_loop.induct)
  case (1 files batch_size i)
  show ?case
  proof (cases "length files \<le> i")
    case True
    then show ?thesis using 1(3) by (simp add: chunk_loop_Nil_iff[THEN iffD2])
  next
    case False
    then have "chunk_loop files batch_size i
        = take batch_size (drop i files) # chunk_loop files batch_size (i + batch_size)"
      using 1(2) by (simp only: chunk_loop_step)
    with 1 False show ?thesis by (auto simp: chunk_loop_Nil_iff split: if_splits)
  qed
qed

lemma ceil_div:
  assumes "0 < b"
  shows "\<lceil>real n / real b\<rceil> = int ((n + b - 1) div b)"
proof -
  define q where "q = (n + b - 1) div b"
  define r where "r = (n + b - 1) mod b"
  have eq: "n + b - 1 = q * b + r" and r: "r < b"
    using assms by (simp_all add: q_def r_def)
  have up: "n \<le> q * b" using eq r by linarith
  have lo: "q * b < n + b" using eq r assms by linarith
  have "real n / real b \<le> real q"
    using up assms by (simp add: divide_le_eq flip: of_nat_mult)
  moreover have "real q - 1 < real n / real b"
  proof -
    have "real (q * b) < real (n + b)" using lo by (simp only: of_nat_less_iff)
    then have "(real q - 1) * real b < real n" by (simp add: algebra_simps)
    then show ?thesis using assms by (simp add: less_divide_eq)
  qed
  ultimately have "\<lceil>real n / real b\<rceil> = int q"
    by (simp add: ceiling_eq_iff)
  then show ?thesis by (simp add: q_def)
qed

text \<open>
  C1. For a positive batch size \<open>B\<close> and a list of \<open>N\<close> records the builder returns
  without error; it returns \<open>\<lceil>N / B\<rceil>\<close> batches whose sizes add up to \<open>N\<close>; every
  batch but the last holds exactly \<open>B\<close> records and the last holds between 1 and
  \<open>B\<close>; the batches concatenated in order are the input list; and the empty list gives
  no batch.
\<close>

theorem chunk_files_batches:
  assumes "0 < B"
  shows "\<exists>bs. chunk_files fs B = Inr bs
     \<and> int (length bs) = \<lceil>real (length fs) / real_of_int B\<rceil>
     \<and> sum_list (map length bs) = length fs
     \<and> (\<forall>b \<in> set (butlast bs). int (length b) = B)
     \<and> (bs \<noteq> [] \<longrightarrow> 1 \<le> length (last bs) \<and> int (length (last bs)) \<le> B)
     \<and> concat bs = fs
     \<and> (fs = [] \<longrightarrow> bs = [])"
proof -
  define b where "b = nat B"
  define bs where "bs = chunk_loop fs b 0"
  have b: "0 < b" "int b = B" "real b = real_of_int B"
    using assms by (simp_all add: b_def)
  have run: "chunk_files fs B = Inr bs"
    using assms by (simp add: chunk_files_def bs_def b_def)
  have cat: "concat bs = fs"
    using chunk_loop_concat [OF b(1), of fs 0] by (simp add: bs_def)
  have count: "int (length bs) = \<lceil>real (length fs) / real_of_int B\<rceil>"
    using chunk_loop_length [OF b(1), of fs 0] ceil_div [OF b(1), of "length fs"] b(3)
    by (simp add: bs_def)
  have total: "sum_list (map length bs) = length fs"
    using arg_cong [OF cat, of length] by (simp only: length_concat)
  have full: "\<forall>x \<in> set (butlast bs). int (length x) = B"
    using chunk_loop_full [OF b(1), of _ fs 0] b(2) by (auto simp: bs_def)
  have lst: "bs \<noteq> [] \<longrightarrow> 1 \<le> length (last bs) \<and> int (length (last bs)) \<le> B"
  proof
    assume "bs \<noteq> []"
    then have "last bs \<in> set (chunk_loop fs b 0)" by (simp add: bs_def)
    from chunk_loop_sizes [OF b(1) this] b(2)
    show "1 \<le> length (last bs) \<and> int (length (last bs)) \<le> B" by linarith
  qed
  have emp: "fs = [] \<longrightarrow> bs = []"
    by (simp add: bs_def chunk_loop_Nil_iff)
  from run count total full lst cat emp show ?thesis by blast
qed

theorem chunk_files_batches_witness:
  "(0::int) < 3
   \<and> chunk_files [1, 2, 3, 4, 5, 6, 7 :: nat] 3 = Inr [[1, 2, 3], [4, 5, 6], [7]]
   \<and> (\<exists>bs. chunk_files [1, 2, 3, 4, 5, 6, 7 :: nat] 3 = Inr bs
     \<and> int (length bs) = \<lceil>real (length [1, 2, 3, 4, 5, 6, 7 :: nat]) / real_of_int 3\<rceil>
     \<and> sum_list (map length bs) = length [1, 2, 3, 4, 5, 6, 7 :: nat]
     \<and> (\<forall>b \<in> set (butlast bs). int (length b) = 3)
     \<and> (bs \<noteq> [] \<longrightarrow> 1 \<le> length (last bs) \<and> int (length (last bs)) \<le> 3)
     \<and> concat bs = [1, 2, 3, 4, 5, 6, 7 :: nat]
     \<and> ([1, 2, 3, 4, 5, 6, 7 :: nat] = [] \<longrightarrow> bs = []))"
proof -
  have h: "(0::int) < 3" by simp
  have v: "chunk_files [1, 2, 3, 4, 5, 6, 7 :: nat] 3 = Inr [[1, 2, 3], [4, 5, 6], [7]]"
    by (simp add: chunk_files_def chunk_loop.simps)
  from h v chunk_files_batches [OF h, of "[1, 2, 3, 4, 5, 6, 7 :: nat]"]
  show ?thesis by (intro conjI)
qed

section \<open>Properties of the delivery client\<close>

lemma posts_append [simp]: "posts (xs @ ys) = posts xs @ posts ys"
  by (induction xs rule: posts.induct) simp_all

lemma sleeps_append [simp]: "sleeps (xs @ ys) = sleeps xs @ sleeps ys"
  by (induction xs rule: sleeps.induct) simp_all

lemma posts_sleep [simp]: "posts (sleep w) = []"
  by (cases w) simp_all

lemma send_attempts_done:
  "max_retries self \<le> int a \<Longrightarrow> send_attempts srv self req a n = (Inl SpringIntegrationError, [], n)"
  by (subst send_attempts.simps) simp

lemma send_attempts_return:
  "int a < max_retries self \<Longrightarrow> attempt_step self a (srv n) = Return \<Longrightarrow>
     send_attempts srv self req a n = (Inr (), [Post req a (srv n)], Suc n)"
  by (subst send_attempts.simps) simp

lemma send_attempts_raise:
  "int a < max_retries self \<Longrightarrow> attempt_step self a (srv n) = Raise e \<Longrightarrow>
     send_attempts srv self req a n = (Inl e, [Post req a (srv n)], Suc n)"
  by (subst send_attempts.simps) simp

lemma send_attempts_continue:
  "int a < max_retries self \<Longrightarrow> attempt_step self a (srv n) = Continue w \<Longrightarrow>
     send_attempts srv self req a n =
       (case send_attempts srv self req (Suc a) (Suc n) of
          (r, ev, n') \<Rightarrow> (r, Post req a (srv n) # sleep w @ ev, n'))"
  by (subst send_attempts.simps) simp

lemma upt_shift: "map f [0..<Suc k] = f 0 # map (\<lambda>i. f (Suc i)) [0..<k]"
  by (simp add: upt_conv_Cons map_Suc_upt [symmetric] del: upt_Suc)

text \<open>
  The requests of one call: consecutive attempts, all for the request of the call.
\<close>

lemma send_attempts_posts:
  "send_attempts srv self req a n = (r, ev, n') \<Longrightarrow>
     \<exists>k. n' = n + k \<and> posts ev = map (\<lambda>i. (req, a + i, srv (n + i))) [0..<k]
        \<and> (k = 0 \<or> int (a + k) \<le> max_retries self)"
proof (induction srv self req a n arbitrary: r ev n' rule: send_attempts.induct)
  case (1 srv self req attempt n)
  show ?case
  proof (cases "max_retries self \<le> int attempt")
    case True
    with 1(2) show ?thesis by (auto simp: send_attempts_done)
  next
    case False
    then have lt: "int attempt < max_retries self" by simp
    show ?thesis
    proof (cases "attempt_step self attempt (srv n)")
      case Return
      with 1(2) lt have "n' = n + 1" "posts ev = map (\<lambda>i. (req, attempt + i, srv (n + i))) [0..<1]"
        by (auto simp: send_attempts_return)
      with lt show ?thesis by (intro exI [of _ 1]) simp
    next
      case (Raise e)
      with 1(2) lt have "n' = n + 1" "posts ev = map (\<lambda>i. (req, attempt + i, srv (n + i))) [0..<1]"
        by (auto simp: send_attempts_raise)
      with lt show ?thesis by (intro exI [of _ 1]) simp
    next
      case (Continue w)
      obtain r1 ev1 n1 where rec: "send_attempts srv self req (Suc attempt) (Suc n) = (r1, ev1, n1)"
        by (cases "send_attempts srv self req (Suc attempt) (Suc n)") auto
      from 1(1) [OF False Continue rec] obtain k where
        k: "n1 = Suc n + k" "posts ev1 = map (\<lambda>i. (req, Suc attempt + i, srv (Suc n + i))) [0..<k]"
           "k = 0 \<or> int (Suc attempt + k) \<le> max_retries self"
        by blast
      from 1(2) lt Continue rec have ev: "ev = Post req attempt (srv n) # sleep w @ ev1" "n' = n1" "r = r1"
        by (auto simp: send_attempts_continue)
      have "posts ev = map (\<lambda>i. (req, attempt + i, srv (n + i))) [0..<Suc k]"
        unfolding upt_shift using ev(1) k(2) by simp
      moreover have "n' = n + Suc k" using ev(2) k(1) by simp
      moreover have "int (attempt + Suc k) \<le> max_retries self" using k(3) lt by auto
      ultimately show ?thesis by blast
    qed
  qed
qed

text \<open>
  The sleeps of one call are powers of two of the attempt numbers, so they grow.
\<close>

lemma send_attempts_sleeps:
  "send_attempts srv self req a n = (r, ev, n') \<Longrightarrow>
     sorted_wrt (<) (sleeps ev)
     \<and> (\<forall>d \<in> set (sleeps ev). \<exists>j. d = 2 ^ j \<and> a \<le> j \<and> int j < max_retries self)"
proof (induction srv self req a n arbitrary: r ev n' rule: send_attempts.induct)
  case (1 srv self req attempt n)
  show ?case
  proof (cases "max_retries self \<le> int attempt")
    case True
    with 1(2) show ?thesis by (auto simp: send_attempts_done)
  next
    case False
    then have lt: "int attempt < max_retries self" by simp
    show ?thesis
    proof (cases "attempt_step self attempt (srv n)")
      case Return
      with 1(2) lt show ?thesis by (auto simp: send_attempts_return)
    next
      case (Raise e)
      with 1(2) lt show ?thesis by (auto simp: send_attempts_raise)
    next
      case (Continue w)
      obtain r1 ev1 n1 where rec: "send_attempts srv self req (Suc attempt) (Suc n) = (r1, ev1, n1)"
        by (cases "send_attempts srv self req (Suc attempt) (Suc n)") auto
      from 1(1) [OF False Continue rec] have
        ih: "sorted_wrt (<) (sleeps ev1)"
            "\<forall>d \<in> set (sleeps ev1). \<exists>j. d = 2 ^ j \<and> Suc attempt \<le> j \<and> int j < max_retries self"
        by blast+
      from 1(2) lt Continue rec have ev: "ev = Post req attempt (srv n) # sleep w @ ev1"
        by (auto simp: send_attempts_continue)
      have w: "w = None \<or> w = Some (2 ^ attempt)"
        using Continue by (auto simp: attempt_step_def split: http_result.splits if_splits)
      have big: "\<forall>d \<in> set (sleeps ev1). (2::nat) ^ attempt < d"
      proof
        fix d assume "d \<in> set (sleeps ev1)"
        with ih(2) obtain j where "d = 2 ^ j" "Suc attempt \<le> j" by blast
        then show "(2::nat) ^ attempt < d" by (simp add: Suc_le_eq)
      qed
      have weak: "\<forall>d \<in> set (sleeps ev1). \<exists>j. d = 2 ^ j \<and> attempt \<le> j \<and> int j < max_retries self"
        using ih(2) by (meson Suc_leD)
      from w show ?thesis
      proof
        assume "w = None"
        with ev ih(1) weak show ?thesis by simp
      next
        assume "w = Some (2 ^ attempt)"
        with ev ih(1) weak big lt show ?thesis by auto
      qed
    qed
  qed
qed

lemma send_attempts_head:
  assumes "int a < max_retries self" "send_attempts srv self req a n = (r, ev, n')"
  shows "\<exists>ev'. ev = Post req a (srv n) # ev'"
proof (cases "attempt_step self a (srv n)")
  case Return
  with assms show ?thesis by (auto simp: send_attempts_return)
next
  case (Raise e)
  with assms show ?thesis by (auto simp: send_attempts_raise)
next
  case (Continue w)
  with assms show ?thesis
    by (auto simp: send_attempts_continue split: prod.splits)
qed

lemma sleep_append_Post:
  assumes "sleep w @ ev = xs @ Post q a x # ys"
  shows "\<exists>xs'. xs = sleep w @ xs' \<and> ev = xs' @ Post q a x # ys"
proof (cases w)
  case None
  with assms show ?thesis by simp
next
  case (Some d)
  with assms show ?thesis by (cases xs) auto
qed

text \<open>
  Every request in the events of a call is followed by what \<open>after_post\<close> says.
\<close>

lemma send_attempts_after_post:
  "send_attempts srv self req a n = (r, ev, n') \<Longrightarrow> ev = xs @ Post q b x # ys \<Longrightarrow>
     q = req \<and> int b < max_retries self \<and> after_post self req r b x ys"
proof (induction srv self req a n arbitrary: r ev n' xs rule: send_attempts.induct)
  case (1 srv self req attempt n)
  show ?case
  proof (cases "max_retries self \<le> int attempt")
    case True
    with 1(2,3) show ?thesis by (auto simp: send_attempts_done)
  next
    case False
    then have lt: "int attempt < max_retries self" by simp
    show ?thesis
    proof (cases "attempt_step self attempt (srv n)")
      case Return
      with 1(2) lt have "ev = [Post req attempt (srv n)]" "r = Inr ()"
        by (auto simp: send_attempts_return)
      with 1(3) have "xs = []" "q = req" "b = attempt" "x = srv n" "ys = []"
        by (auto simp: Cons_eq_append_conv)
      with Return lt \<open>r = Inr ()\<close> show ?thesis by (simp add: after_post_def)
    next
      case (Raise e)
      with 1(2) lt have "ev = [Post req attempt (srv n)]" "r = Inl e"
        by (auto simp: send_attempts_raise)
      with 1(3) have "xs = []" "q = req" "b = attempt" "x = srv n" "ys = []"
        by (auto simp: Cons_eq_append_conv)
      with Raise lt \<open>r = Inl e\<close> show ?thesis by (simp add: after_post_def)
    next
      case (Continue w)
      obtain r1 ev1 n1 where rec: "send_attempts srv self req (Suc attempt) (Suc n) = (r1, ev1, n1)"
        by (cases "send_attempts srv self req (Suc attempt) (Suc n)") auto
      from 1(2) lt Continue rec have ev: "ev = Post req attempt (srv n) # sleep w @ ev1" "r = r1"
        by (auto simp: send_attempts_continue)
      show ?thesis
      proof (cases xs)
        case Nil
        with ev(1) 1(3) have here: "q = req" "b = attempt" "x = srv n" "ys = sleep w @ ev1"
          by auto
        have "if int (Suc attempt) < max_retries self then \<exists>y ev''. ev1 = Post req (Suc attempt) y # ev''
              else ev1 = [] \<and> r = Inl SpringIntegrationError"
        proof (cases "int (Suc attempt) < max_retries self")
          case True
          with send_attempts_head [OF True rec] show ?thesis by auto
        next
          case False
          then have "max_retries self \<le> int (Suc attempt)" by simp
          from send_attempts_done [OF this, of srv req "Suc n"] rec ev(2) False
          show ?thesis by auto
        qed
        with here Continue lt show ?thesis
          by (auto simp: after_post_def)
      next
        case (Cons e xs')
        with ev(1) 1(3) have "sleep w @ ev1 = xs' @ Post q b x # ys" by simp
        from sleep_append_Post [OF this] obtain xs'' where "ev1 = xs'' @ Post q b x # ys"
          by blast
        from 1(1) [OF False Continue rec this] ev(2) show ?thesis by simp
      qed
    qed
  qed
qed

lemma send_attempts_all_transport_failures:
  "(\<forall>k. int (a + k) < max_retries self \<longrightarrow> transport_failure (srv (n + k))) \<Longrightarrow>
     \<exists>ev. send_attempts srv self req a n = (Inl SpringIntegrationError, ev, n + (nat (max_retries self) - a))
        \<and> sleeps ev = map (\<lambda>i. 2 ^ (a + i)) [0..<nat (max_retries self) - Suc a]"
proof (induction srv self req a n rule: send_attempts.induct)
  case (1 srv self req attempt n)
  show ?case
  proof (cases "max_retries self \<le> int attempt")
    case True
    then show ?thesis by (simp add: send_attempts_done)
  next
    case False
    then have lt: "int attempt < max_retries self" by simp
    with 1(2) [rule_format, of 0] have tf: "transport_failure (srv n)" by simp
    show ?thesis
    proof (cases "int attempt = max_retries self - 1")
      case True
      with tf have "attempt_step self attempt (srv n) = Raise SpringIntegrationError"
        by (auto simp: attempt_step_def transport_failure_def)
      moreover have "nat (max_retries self) = Suc attempt" using True by linarith
      ultimately show ?thesis
        using send_attempts_raise [where srv = srv and n = n and req = req and e = SpringIntegrationError, OF lt]
        by simp
    next
      case False
      with tf have st: "attempt_step self attempt (srv n) = Continue (Some (2 ^ attempt))"
        by (auto simp: attempt_step_def transport_failure_def)
      have "\<forall>k. int (Suc attempt + k) < max_retries self \<longrightarrow> transport_failure (srv (Suc n + k))"
      proof (intro allI impI)
        fix k assume "int (Suc attempt + k) < max_retries self"
        with 1(2) [rule_format, of "Suc k"] show "transport_failure (srv (Suc n + k))" by simp
      qed
      from 1(1) [OF \<open>\<not> max_retries self \<le> int attempt\<close> st this] obtain ev1 where
        rec: "send_attempts srv self req (Suc attempt) (Suc n)
                = (Inl SpringIntegrationError, ev1, Suc n + (nat (max_retries self) - Suc attempt))"
        and sl: "sleeps ev1 = map (\<lambda>i. 2 ^ (Suc attempt + i)) [0..<nat (max_retries self) - Suc (Suc attempt)]"
        by blast
      define j where "j = nat (max_retries self) - Suc (Suc attempt)"
      have ge: "Suc (Suc attempt) \<le> nat (max_retries self)" using False lt by linarith
      then have j: "nat (max_retries self) - Suc attempt = Suc j" by (simp add: j_def)
      have j': "nat (max_retries self) - Suc (Suc attempt) = j" by (simp add: j_def)
      have "sleeps (Post req attempt (srv n) # sleep (Some (2 ^ attempt)) @ ev1)
              = map (\<lambda>i. 2 ^ (attempt + i)) [0..<nat (max_retries self) - Suc attempt]"
        unfolding j upt_shift using sl j' by simp
      moreover have "Suc n + (nat (max_retries self) - Suc attempt) = n + (nat (max_retries self) - attempt)"
        using ge by linarith
      ultimately show ?thesis
        using send_attempts_continue [where srv = srv and n = n and req = req, OF lt st] rec by simp
    qed
  qed
qed

lemma attempt_step_Return:
  "attempt_step self a x = Return \<Longrightarrow> \<exists>ra. x = Response 200 ra True"
  by (auto simp: attempt_step_def split: http_result.splits if_splits)

lemma send_attempts_success:
  "send_attempts srv self req a n = (Inr u, ev, n') \<Longrightarrow>
     \<exists>xs b ra. ev = xs @ [Post req b (Response 200 ra True)]"
proof (induction srv self req a n arbitrary: ev n' rule: send_attempts.induct)
  case (1 srv self req attempt n)
  show ?case
  proof (cases "max_retries self \<le> int attempt")
    case True
    with 1(2) show ?thesis by (auto simp: send_attempts_done)
  next
    case False
    then have lt: "int attempt < max_retries self" by simp
    show ?thesis
    proof (cases "attempt_step self attempt (srv n)")
      case Return
      with 1(2) lt have "ev = [Post req attempt (srv n)]"
        by (auto simp: send_attempts_return)
      with attempt_step_Return [OF Return] show ?thesis by auto
    next
      case (Raise e)
      with 1(2) lt show ?thesis by (auto simp: send_attempts_raise)
    next
      case (Continue w)
      obtain r1 ev1 n1 where rec: "send_attempts srv self req (Suc attempt) (Suc n) = (r1, ev1, n1)"
        by (cases "send_attempts srv self req (Suc attempt) (Suc n)") auto
      from 1(2) lt Continue rec have ev: "ev = Post req attempt (srv n) # sleep w @ ev1" "r1 = Inr u"
        by (auto simp: send_attempts_continue)
      from 1(1) [OF False Continue rec [unfolded ev(2)]] obtain xs b ra where
        "ev1 = xs @ [Post req b (Response 200 ra True)]" by blast
      with ev(1) have "ev = (Post req attempt (srv n) # sleep w @ xs) @ [Post req b (Response 200 ra True)]"
        by simp
      then show ?thesis by blast
    qed
  qed
qed

text \<open>
  C7. When an attempt is answered with a status of 400 or more other than 429, the call
  fails with an error and that request is the last event of the call: no sleep and no
  further attempt follow it. The request is for the batch of the call.
\<close>

theorem rejected_fails_without_retry:
  assumes "send_snapshot_batch srv self req n = (r, ev, n')"
    and "ev = xs @ Post q a (Response status_code retry_after readable) # ys"
    and "400 \<le> status_code" and "status_code \<noteq> 429"
  shows "q = req \<and> ys = [] \<and> (\<exists>e. r = Inl e)"
proof -
  from assms(3,4) have "\<exists>e. attempt_step self a (Response status_code retry_after readable) = Raise e"
    by (simp add: attempt_step_def)
  with send_attempts_after_post [OF assms(1) [unfolded send_snapshot_batch_def] assms(2)]
  show ?thesis by (auto simp: after_post_def)
qed

text \<open>
  An instance: a timeout, then 401. The call makes two requests and raises
  \<open>SpringIntegrationError\<close>.
\<close>

theorem rejected_fails_without_retry_witness:
  "send_snapshot_batch (\<lambda>k. if k = 0 then TimeoutException else Response 401 None True)
       example_client example_request 0
     = (Inl SpringIntegrationError,
        [Post example_request 0 TimeoutException, Sleep 1,
         Post example_request 1 (Response 401 None True)], 2)
   \<and> (400::nat) \<le> 401 \<and> (401::nat) \<noteq> 429
   \<and> (\<exists>e. (Inl SpringIntegrationError :: error + unit) = Inl e)"
proof -
  let ?srv = "\<lambda>k::nat. if k = 0 then TimeoutException else Response 401 None True"
  have run: "send_snapshot_batch ?srv example_client example_request 0
     = (Inl SpringIntegrationError,
        [Post example_request 0 TimeoutException, Sleep 1,
         Post example_request 1 (Response 401 None True)], 2)"
    by (simp add: ev_simps)
  have shape: "[Post example_request 0 TimeoutException, Sleep 1,
         Post example_request 1 (Response 401 None True)]
      = [Post example_request 0 TimeoutException, Sleep 1]
          @ Post example_request 1 (Response 401 None True) # []"
    by simp
  have c1: "(400::nat) \<le> 401" and c2: "(401::nat) \<noteq> 429" by simp_all
  from rejected_fails_without_retry [OF run shape c1 c2] run c1 c2
  show ?thesis by blast
qed

text \<open>
  C6, as the spec states it, fails on the code: the backoff has no cap. With twelve
  attempts and a server that times out the sleeps go up to 1024 seconds, and whatever cap
  is named, a client configured with enough attempts sleeps longer than it.
\<close>

theorem backoff_not_capped_counterexample:
  "sleeps (fst (snd (send_snapshot_batch always_timeout (patient_client 12) example_request 0)))
     = [1, 2, 4, 8, 16, 32, 64, 128, 256, 512, 1024]
   \<and> \<not> (\<exists>cap. \<forall>m.
          capped cap (fst (snd (send_snapshot_batch always_timeout (patient_client m)
                                  example_request 0))))"
proof
  have sl: "sleeps (fst (snd (send_snapshot_batch always_timeout (patient_client m) example_request 0)))
      = map (\<lambda>i. 2 ^ i) [0..<nat m - Suc 0]" for m
  proof -
    have "\<forall>k. int (0 + k) < max_retries (patient_client m)
            \<longrightarrow> transport_failure (always_timeout (0 + k))"
      by (simp add: transport_failure_def always_timeout_def)
    from send_attempts_all_transport_failures
           [where a = 0 and self = "patient_client m" and srv = always_timeout and n = 0
              and req = example_request, OF this]
    show ?thesis
      by (auto simp: send_snapshot_batch_def patient_client_def)
  qed
  show "sleeps (fst (snd (send_snapshot_batch always_timeout (patient_client 12) example_request 0)))
     = [1, 2, 4, 8, 16, 32, 64, 128, 256, 512, 1024]"
    unfolding sl by (simp add: upt_conv_Cons)
  show "\<not> (\<exists>cap. \<forall>m.
          capped cap (fst (snd (send_snapshot_batch always_timeout (patient_client m)
                                  example_request 0))))"
  proof
    assume "\<exists>cap. \<forall>m.
          capped cap (fst (snd (send_snapshot_batch always_timeout (patient_client m)
                                  example_request 0)))"
    then obtain cap where
      "capped cap (fst (snd (send_snapshot_batch always_timeout (patient_client (int (cap + 2)))
                               example_request 0)))"
      by blast
    then have "\<forall>d \<in> set (map (\<lambda>i. (2::nat) ^ i) [0..<Suc cap]). d \<le> cap"
      unfolding capped_def sl by (simp add: list_all_iff)
    then have "(2::nat) ^ cap \<le> cap" by simp
    moreover have "cap < (2::nat) ^ cap" by (rule less_exp)
    ultimately show False by simp
  qed
qed

text \<open>
  C6, amended. For every server, a call makes at most \<open>max_retries\<close> requests; its
  sleeps are in non-decreasing order and each is \<open>2 ^ j\<close> seconds for the number \<open>j\<close> of
  an attempt of the call, with no cap; a request that ends in a
  transport failure at attempt \<open>a\<close> is followed by a sleep of \<open>2 ^ a\<close> seconds and the
  next attempt for the same request when an attempt is left, and by
  \<open>SpringIntegrationError\<close> with nothing after it when it was the last attempt. When every
  request of the call ends in a transport failure the call makes exactly \<open>max_retries\<close>
  requests, sleeps 1, 2, 4, ... seconds between them and raises
  \<open>SpringIntegrationError\<close>. A call that returns has a readable 200 answer as its last
  event.
\<close>

theorem transport_failure_backoff:
  assumes "send_snapshot_batch srv self req n = (r, ev, n')"
  shows "length (posts ev) \<le> nat (max_retries self)
     \<and> sorted (sleeps ev)
     \<and> (\<forall>d \<in> set (sleeps ev). \<exists>j. d = 2 ^ j \<and> int j < max_retries self)
     \<and> (\<forall>xs q a x ys. ev = xs @ Post q a x # ys \<and> transport_failure x \<longrightarrow>
           q = req \<and> int a < max_retries self
           \<and> (if int (Suc a) < max_retries self
              then \<exists>y ev'. ys = Sleep (2 ^ a) # Post req (Suc a) y # ev'
              else ys = [] \<and> r = Inl SpringIntegrationError))
     \<and> ((\<forall>k < nat (max_retries self). transport_failure (srv (n + k))) \<longrightarrow>
           r = Inl SpringIntegrationError \<and> length (posts ev) = nat (max_retries self)
           \<and> sleeps ev = map (\<lambda>i. 2 ^ i) [0..<nat (max_retries self) - 1])
     \<and> (r = Inr () \<longrightarrow> (\<exists>xs a ra. ev = xs @ [Post req a (Response 200 ra True)]))"
proof -
  from assms have run: "send_attempts srv self req 0 n = (r, ev, n')"
    by (simp add: send_snapshot_batch_def)
  from send_attempts_posts [OF run] obtain k where
    k: "n' = n + k" "posts ev = map (\<lambda>i. (req, 0 + i, srv (n + i))) [0..<k]"
       "k = 0 \<or> int (0 + k) \<le> max_retries self"
    by blast
  have len: "length (posts ev) = k" using k(2) by simp
  have c1: "length (posts ev) \<le> nat (max_retries self)"
    using k(3) len by auto
  from send_attempts_sleeps [OF run] have
    st: "sorted_wrt (<) (sleeps ev)"
    and pw: "\<forall>d \<in> set (sleeps ev). \<exists>j. d = 2 ^ j \<and> 0 \<le> j \<and> int j < max_retries self"
    by blast+
  have c2: "sorted (sleeps ev)"
    using st by (rule sorted_wrt_mono_rel [rotated]) simp
  have c3: "\<forall>d \<in> set (sleeps ev). \<exists>j. d = 2 ^ j \<and> int j < max_retries self"
    using pw by blast
  have c4: "\<forall>xs q a x ys. ev = xs @ Post q a x # ys \<and> transport_failure x \<longrightarrow>
           q = req \<and> int a < max_retries self
           \<and> (if int (Suc a) < max_retries self
              then \<exists>y ev'. ys = Sleep (2 ^ a) # Post req (Suc a) y # ev'
              else ys = [] \<and> r = Inl SpringIntegrationError)"
  proof (intro allI impI)
    fix xs q a x ys
    assume h: "ev = xs @ Post q a x # ys \<and> transport_failure x"
    from send_attempts_after_post [OF run] h have
      ap: "q = req" "int a < max_retries self" "after_post self req r a x ys"
      by blast+
    show "q = req \<and> int a < max_retries self
           \<and> (if int (Suc a) < max_retries self
              then \<exists>y ev'. ys = Sleep (2 ^ a) # Post req (Suc a) y # ev'
              else ys = [] \<and> r = Inl SpringIntegrationError)"
    proof (cases "int (Suc a) < max_retries self")
      case True
      then have "attempt_step self a x = Continue (Some (2 ^ a))"
        using h by (auto simp: attempt_step_def transport_failure_def)
      with ap True show ?thesis by (auto simp: after_post_def)
    next
      case False
      with ap(2) have "int a = max_retries self - 1" by simp
      then have "attempt_step self a x = Raise SpringIntegrationError"
        using h by (auto simp: attempt_step_def transport_failure_def)
      with ap False show ?thesis by (auto simp: after_post_def)
    qed
  qed
  have c5: "(\<forall>k < nat (max_retries self). transport_failure (srv (n + k))) \<longrightarrow>
           r = Inl SpringIntegrationError \<and> length (posts ev) = nat (max_retries self)
           \<and> sleeps ev = map (\<lambda>i. 2 ^ i) [0..<nat (max_retries self) - 1]"
  proof
    assume h: "\<forall>k < nat (max_retries self). transport_failure (srv (n + k))"
    then have "\<forall>k. int (0 + k) < max_retries self \<longrightarrow> transport_failure (srv (n + k))"
      by simp
    from send_attempts_all_transport_failures [OF this, of req] run
    have "r = Inl SpringIntegrationError" "n' = n + (nat (max_retries self) - 0)"
         "sleeps ev = map (\<lambda>i. 2 ^ (0 + i)) [0..<nat (max_retries self) - Suc 0]"
      by auto
    with k(1) len show "r = Inl SpringIntegrationError \<and> length (posts ev) = nat (max_retries self)
           \<and> sleeps ev = map (\<lambda>i. 2 ^ i) [0..<nat (max_retries self) - 1]"
      by simp
  qed
  have c6: "r = Inr () \<longrightarrow> (\<exists>xs a ra. ev = xs @ [Post req a (Response 200 ra True)])"
    using send_attempts_success [of srv self req 0 n "()" ev n'] run by auto
  from c1 c2 c3 c4 c5 c6 show ?thesis by (intro conjI)
qed

text \<open>
  An instance: the server times out on every request and the client has its defaults.
\<close>

theorem transport_failure_backoff_witness:
  "send_snapshot_batch (\<lambda>k. TimeoutException) example_client example_request 0
     = (Inl SpringIntegrationError,
        [Post example_request 0 TimeoutException, Sleep 1,
         Post example_request 1 TimeoutException, Sleep 2,
         Post example_request 2 TimeoutException], 3)
   \<and> length (posts (fst (snd (send_snapshot_batch (\<lambda>k. TimeoutException) example_client example_request 0))))
       \<le> nat (max_retries example_client)
   \<and> sorted (sleeps (fst (snd (send_snapshot_batch (\<lambda>k. TimeoutException) example_client example_request 0))))
   \<and> sleeps (fst (snd (send_snapshot_batch (\<lambda>k. TimeoutException) example_client example_request 0))) = [1, 2]
   \<and> max_retries example_client = 3"
proof -
  have run: "send_snapshot_batch (\<lambda>k. TimeoutException) example_client example_request 0
     = (Inl SpringIntegrationError,
        [Post example_request 0 TimeoutException, Sleep 1,
         Post example_request 1 TimeoutException, Sleep 2,
         Post example_request 2 TimeoutException], 3)"
    by (simp add: ev_simps)
  have m: "max_retries example_client = 3"
    by (simp add: example_client_def spring_client_def)
  have tf: "\<forall>k < nat (max_retries example_client). transport_failure ((\<lambda>k. TimeoutException) (0 + k))"
    by (simp add: transport_failure_def)
  from transport_failure_backoff [OF run] tf
  have "length (posts [Post example_request 0 TimeoutException, Sleep 1,
         Post example_request 1 TimeoutException, Sleep 2,
         Post example_request 2 TimeoutException]) \<le> nat (max_retries example_client)"
    and "sorted (sleeps [Post example_request 0 TimeoutException, Sleep 1,
         Post example_request 1 TimeoutException, Sleep 2,
         Post example_request 2 TimeoutException])"
    and "sleeps [Post example_request 0 TimeoutException, Sleep 1,
         Post example_request 1 TimeoutException, Sleep 2,
         Post example_request 2 TimeoutException]
        = map (\<lambda>i. 2 ^ i) [0..<nat (max_retries example_client) - 1]"
    by blast+
  with run m show ?thesis by (simp add: upt_conv_Cons)
qed

section \<open>Properties of the sequential delivery\<close>

lemma send_loop_calls:
  "send_loop srv self mk b bs n = (calls, n') \<Longrightarrow> (\<And>i fs. batch_number (mk i fs) = i) \<Longrightarrow>
     (\<And>i fs. entries (mk i fs) = fs) \<Longrightarrow>
     length calls \<le> length bs
     \<and> map (\<lambda>c. batch_number (request c)) calls = [b..<b + length calls]
     \<and> map (\<lambda>c. entries (request c)) calls = take (length calls) bs
     \<and> (\<forall>c \<in> set calls. \<exists>m m'. send_snapshot_batch srv self (request c) m = (result c, events c, m'))
     \<and> (\<forall>c \<in> set (butlast calls). result c = Inr ())"
proof (induction bs arbitrary: b n calls n')
  case Nil
  then show ?case by simp
next
  case (Cons batch_files rest)
  show ?case
  proof (cases "validate_request (mk b batch_files)")
    case (Inl e)
    with Cons.prems(1) show ?thesis by auto
  next
    case (Inr batch_request)
    then have br: "batch_request = mk b batch_files"
      by (auto simp: validate_request_def split: if_splits)
    obtain r ev n1 where snd: "send_snapshot_batch srv self batch_request n = (r, ev, n1)"
      by (cases "send_snapshot_batch srv self batch_request n") auto
    show ?thesis
    proof (cases r)
      case (Inl e)
      with Cons.prems(1) Inr snd have "calls = [Delivery batch_request (Inl e) ev]" by auto
      with br Cons.prems(2,3) snd Inl show ?thesis by auto
    next
      case (Inr response)
      obtain calls1 n2 where rec: "send_loop srv self mk (Suc b) rest n1 = (calls1, n2)"
        by (cases "send_loop srv self mk (Suc b) rest n1") auto
      from Cons.prems(1) \<open>validate_request (mk b batch_files) = Inr batch_request\<close> snd Inr rec
      have calls: "calls = Delivery batch_request (Inr response) ev # calls1" by auto
      from Cons.IH [OF rec Cons.prems(2,3)] have ih:
        "length calls1 \<le> length rest"
        "map (\<lambda>c. batch_number (request c)) calls1 = [Suc b..<Suc b + length calls1]"
        "map (\<lambda>c. entries (request c)) calls1 = take (length calls1) rest"
        "\<forall>c \<in> set calls1. \<exists>m m'. send_snapshot_batch srv self (request c) m = (result c, events c, m')"
        "\<forall>c \<in> set (butlast calls1). result c = Inr ()"
        by blast+
      have "map (\<lambda>c. batch_number (request c)) calls = [b..<b + length calls]"
      proof -
        have "[b..<b + length calls] = b # [Suc b..<Suc b + length calls1]"
          using calls by (simp add: upt_conv_Cons del: upt_Suc)
        with calls ih(2) br Cons.prems(2) show ?thesis by (simp del: upt_Suc)
      qed
      moreover have "map (\<lambda>c. entries (request c)) calls = take (length calls) (batch_files # rest)"
        using calls ih(3) br Cons.prems(3) by simp
      moreover have "\<forall>c \<in> set calls. \<exists>m m'. send_snapshot_batch srv self (request c) m = (result c, events c, m')"
        using calls ih(4) snd Inr by auto
      moreover have "\<forall>c \<in> set (butlast calls). result c = Inr ()"
        using calls ih(5) by auto
      ultimately show ?thesis using calls ih(1) by simp
    qed
  qed
qed

lemma send_loop_complete:
  "send_loop srv self mk b bs n = (calls, n') \<Longrightarrow>
     (\<And>i fs. b \<le> i \<Longrightarrow> validate_request (mk i fs) = Inr (mk i fs)) \<Longrightarrow>
     \<forall>c \<in> set calls. result c = Inr () \<Longrightarrow> length calls = length bs"
proof (induction bs arbitrary: b n calls n')
  case Nil
  then show ?case by simp
next
  case (Cons batch_files rest)
  have v: "validate_request (mk b batch_files) = Inr (mk b batch_files)"
    using Cons.prems(2) by simp
  obtain r ev n1 where snd: "send_snapshot_batch srv self (mk b batch_files) n = (r, ev, n1)"
    by (cases "send_snapshot_batch srv self (mk b batch_files) n") auto
  show ?case
  proof (cases r)
    case (Inl e)
    with Cons.prems(1) v snd have "calls = [Delivery (mk b batch_files) (Inl e) ev]" by auto
    with Cons.prems(3) show ?thesis by simp
  next
    case (Inr response)
    obtain calls1 n2 where rec: "send_loop srv self mk (Suc b) rest n1 = (calls1, n2)"
      by (cases "send_loop srv self mk (Suc b) rest n1") auto
    from Cons.prems(1) v snd Inr rec
    have calls: "calls = Delivery (mk b batch_files) (Inr response) ev # calls1" by auto
    have "length calls1 = length rest"
    proof (rule Cons.IH [OF rec])
      fix i fs assume "Suc b \<le> i"
      then show "validate_request (mk i fs) = Inr (mk i fs)" using Cons.prems(2) by simp
    next
      show "\<forall>c \<in> set calls1. result c = Inr ()" using Cons.prems(3) calls by simp
    qed
    with calls show ?thesis by simp
  qed
qed

lemma send_loop_requests:
  "send_loop srv self mk b bs n = (calls, n') \<Longrightarrow> c \<in> set calls \<Longrightarrow> \<exists>i fs. request c = mk i fs"
proof (induction bs arbitrary: b n calls n')
  case Nil
  then show ?case by simp
next
  case (Cons batch_files rest)
  show ?case
  proof (cases "validate_request (mk b batch_files)")
    case (Inl e)
    with Cons.prems show ?thesis by auto
  next
    case (Inr batch_request)
    then have br: "batch_request = mk b batch_files"
      by (auto simp: validate_request_def split: if_splits)
    obtain r ev n1 where snd: "send_snapshot_batch srv self batch_request n = (r, ev, n1)"
      by (cases "send_snapshot_batch srv self batch_request n") auto
    show ?thesis
    proof (cases r)
      case (Inl e)
      with Cons.prems(1) Inr snd have "calls = [Delivery batch_request (Inl e) ev]" by auto
      with br Cons.prems(2) show ?thesis by auto
    next
      case (Inr response)
      obtain calls1 n2 where rec: "send_loop srv self mk (Suc b) rest n1 = (calls1, n2)"
        by (cases "send_loop srv self mk (Suc b) rest n1") auto
      from Cons.prems(1) \<open>validate_request (mk b batch_files) = Inr batch_request\<close> snd Inr rec
      have calls: "calls = Delivery batch_request (Inr response) ev # calls1" by auto
      with Cons.prems(2) have "c = Delivery batch_request (Inr response) ev \<or> c \<in> set calls1" by auto
      then show ?thesis
      proof
        assume "c = Delivery batch_request (Inr response) ev"
        with br show ?thesis by auto
      next
        assume "c \<in> set calls1"
        from Cons.IH [OF rec this] show ?thesis .
      qed
    qed
  qed
qed

lemma butlast_all_nth:
  assumes "\<forall>c \<in> set (butlast cs). P c" "Suc i < length cs"
  shows "P (cs ! i)"
proof -
  from assms(2) have "i < length (butlast cs)" by simp
  then have "butlast cs ! i \<in> set (butlast cs)" by (rule nth_mem)
  moreover have "butlast cs ! i = cs ! i" using \<open>i < length (butlast cs)\<close> by (rule nth_butlast)
  ultimately show ?thesis using assms(1) by auto
qed

lemma send_batches_length:
  assumes "send_batches_to_spring srv now tid dir uid batches strat budget client n = (calls, n')"
  shows "length calls \<le> length batches"
  using send_loop_calls [OF assms [unfolded send_batches_to_spring_def]] by simp

text \<open>
  C2. The calls of \<open>send_snapshot_batch\<close> made for a task, in the order they are
  made, carry the batch numbers 1, 2, ... and the batches of the task in their order, each
  with the total number of batches; every request on the wire during a call is for the
  batch of that call; every call before the last one succeeded, so batch \<open>N + 1\<close> is sent
  only after batch \<open>N\<close> was accepted; a call that fails is the last call; and when no
  call fails (and the budget is valid) every batch is sent.
\<close>

theorem batches_sent_in_order:
  assumes "send_batches_to_spring srv now tid dir uid batches strat budget client n = (calls, n')"
  shows "length calls \<le> length batches
     \<and> map (\<lambda>c. batch_number (request c)) calls = [1..<Suc (length calls)]
     \<and> map (\<lambda>c. entries (request c)) calls = take (length calls) batches
     \<and> (\<forall>c \<in> set calls. total_batches (request c) = length batches
           \<and> (\<forall>e \<in> set (events c). \<forall>q a x. e = Post q a x \<longrightarrow> q = request c))
     \<and> (\<forall>i. Suc i < length calls \<longrightarrow> result (calls ! i) = Inr ())
     \<and> (\<forall>i < length calls. result (calls ! i) \<noteq> Inr () \<longrightarrow> Suc i = length calls)
     \<and> ((case budget of None \<Rightarrow> True | Some x \<Rightarrow> 0 \<le> x) \<and> (\<forall>c \<in> set calls. result c = Inr ())
           \<longrightarrow> length calls = length batches)"
proof -
  let ?mk = "\<lambda>batch_num batch_files.
          \<lparr>task_id = tid, batch_number = batch_num, total_batches = length batches,
           directory = dir, user_id = uid, strategy = strat, max_cost_budget = budget,
           generated_at = now batch_num, entries = batch_files\<rparr>"
  from assms have run: "send_loop srv client ?mk 1 batches n = (calls, n')"
    by (simp add: send_batches_to_spring_def)
  have facts:
    "length calls \<le> length batches"
    "map (\<lambda>c. batch_number (request c)) calls = [1..<1 + length calls]"
    "map (\<lambda>c. entries (request c)) calls = take (length calls) batches"
    "\<forall>c \<in> set calls. \<exists>m m'. send_snapshot_batch srv client (request c) m = (result c, events c, m')"
    "\<forall>c \<in> set (butlast calls). result c = Inr ()"
    using send_loop_calls [OF run] by simp_all
  have tot: "\<forall>c \<in> set calls. total_batches (request c) = length batches"
  proof
    fix c assume "c \<in> set calls"
    from send_loop_requests [OF run this] show "total_batches (request c) = length batches"
      by auto
  qed
  have same: "\<forall>c \<in> set calls. \<forall>e \<in> set (events c). \<forall>q a x. e = Post q a x \<longrightarrow> q = request c"
  proof (intro ballI allI impI)
    fix c e q a x
    assume c: "c \<in> set calls" and e: "e \<in> set (events c)" and p: "e = Post q a x"
    from facts(4) c obtain m m' where
      s: "send_snapshot_batch srv client (request c) m = (result c, events c, m')" by blast
    from e p obtain xs ys where "events c = xs @ Post q a x # ys"
      by (auto simp: in_set_conv_decomp)
    from send_attempts_after_post [OF s [unfolded send_snapshot_batch_def] this]
    show "q = request c" by simp
  qed
  have prev: "\<forall>i. Suc i < length calls \<longrightarrow> result (calls ! i) = Inr ()"
    using butlast_all_nth [OF facts(5)] by blast
  have stop: "\<forall>i < length calls. result (calls ! i) \<noteq> Inr () \<longrightarrow> Suc i = length calls"
  proof (intro allI impI)
    fix i assume "i < length calls" "result (calls ! i) \<noteq> Inr ()"
    with prev show "Suc i = length calls" by (metis Suc_lessI)
  qed
  have all: "(case budget of None \<Rightarrow> True | Some x \<Rightarrow> 0 \<le> x) \<and> (\<forall>c \<in> set calls. result c = Inr ())
           \<longrightarrow> length calls = length batches"
  proof (cases batches)
    case Nil
    with facts(1) show ?thesis by simp
  next
    case (Cons b bs)
    show ?thesis
    proof
      assume h: "(case budget of None \<Rightarrow> True | Some x \<Rightarrow> 0 \<le> x) \<and> (\<forall>c \<in> set calls. result c = Inr ())"
      have "\<And>i fs. 1 \<le> i \<Longrightarrow> validate_request (?mk i fs) = Inr (?mk i fs)"
        using h Cons by (simp add: validate_request_def)
      from send_loop_complete [OF run this] h show "length calls = length batches" by simp
    qed
  qed
  from facts(1,2,3) tot same prev stop all show ?thesis by simp
qed

text \<open>
  An instance: three batches, the server accepts the first and rejects the second. Two
  calls are made, for the batches 1 and 2; the third batch is never sent.
\<close>

theorem batches_sent_in_order_witness:
  "map (\<lambda>c. batch_number (request c)) (fst (example_delivery second_batch_rejected example_batches)) = [1, 2]
   \<and> map (\<lambda>c. entries (request c)) (fst (example_delivery second_batch_rejected example_batches))
       = [[example_entry ''a''], [example_entry ''b'']]
   \<and> map result (fst (example_delivery second_batch_rejected example_batches))
       = [Inr (), Inl SpringIntegrationError]
   \<and> length (fst (example_delivery second_batch_rejected example_batches)) \<le> length example_batches"
proof -
  let ?run = "example_delivery second_batch_rejected example_batches"
  have run: "send_batches_to_spring second_batch_rejected (\<lambda>k. 0) ''task'' ''/data'' ''user_task''
       example_batches BALANCED None example_client 0 = (fst ?run, snd ?run)"
    by (simp add: example_delivery_def)
  have res: "map result (fst ?run) = [Inr (), Inl SpringIntegrationError]"
    by (simp add: run_simps second_batch_rejected_def)
  then have len: "length (fst ?run) = 2"
    using length_map [of result "fst ?run"] by simp
  from batches_sent_in_order [OF run] have
    "length (fst ?run) \<le> length example_batches"
    "map (\<lambda>c. batch_number (request c)) (fst ?run) = [1..<Suc (length (fst ?run))]"
    "map (\<lambda>c. entries (request c)) (fst ?run) = take (length (fst ?run)) example_batches"
    by blast+
  with res len show ?thesis
    by (simp add: example_batches_def upt_conv_Cons)
qed

text \<open>
  C5, as the spec states it, fails on the code: the server answers 429 with
  \<open>retryAfter = 5\<close>, and the client sleeps one second before its next attempt.
\<close>

theorem rate_limit_wait_counterexample:
  "send_snapshot_batch (\<lambda>k. if k = 0 then Response 429 (Some 5) True else Response 200 None True)
       example_client example_request 0
     = (Inr (),
        [Post example_request 0 (Response 429 (Some 5) True), Sleep 1,
         Post example_request 1 (Response 200 None True)], 2)
   \<and> \<not> honours_retry_after
        [Post example_request 0 (Response 429 (Some 5) True), Sleep 1,
         Post example_request 1 (Response 200 None True)]"
  by (simp add: ev_simps)

text \<open>
  C5, amended. When an attempt of number \<open>a\<close> (from 0) is answered with 429, the client
  sleeps \<open>2 ^ a\<close> seconds, whatever \<open>retryAfter\<close> the answer carries or lacks, and then
  makes the next attempt for the same batch if an attempt is left; otherwise the call
  raises \<open>SpringIntegrationError\<close>. The batches of the task keep their numbers and their
  order.
\<close>

theorem rate_limited_backoff:
  assumes "send_batches_to_spring srv now tid dir uid batches strat budget client n = (calls, n')"
    and "c \<in> set calls"
    and "events c = xs @ Post q a (Response 429 retry_after readable) # ys"
  shows "q = request c
     \<and> (\<exists>ev'. ys = Sleep (2 ^ a) # ev'
          \<and> (if int (Suc a) < max_retries client
             then \<exists>y ev''. ev' = Post (request c) (Suc a) y # ev''
             else ev' = [] \<and> result c = Inl SpringIntegrationError))
     \<and> map (\<lambda>c. batch_number (request c)) calls = [1..<Suc (length calls)]
     \<and> map (\<lambda>c. entries (request c)) calls = take (length calls) batches"
proof -
  from assms(1) have run: "send_loop srv client
       (\<lambda>batch_num batch_files.
          \<lparr>task_id = tid, batch_number = batch_num, total_batches = length batches,
           directory = dir, user_id = uid, strategy = strat, max_cost_budget = budget,
           generated_at = now batch_num, entries = batch_files\<rparr>) 1 batches n = (calls, n')"
    by (simp add: send_batches_to_spring_def)
  have facts:
    "map (\<lambda>c. batch_number (request c)) calls = [1..<1 + length calls]"
    "map (\<lambda>c. entries (request c)) calls = take (length calls) batches"
    "\<forall>c \<in> set calls. \<exists>m m'. send_snapshot_batch srv client (request c) m = (result c, events c, m')"
    using send_loop_calls [OF run] by simp_all
  from facts(3) assms(2) obtain m m' where
    s: "send_attempts srv client (request c) 0 m = (result c, events c, m')"
    by (auto simp: send_snapshot_batch_def)
  have "attempt_step client a (Response 429 retry_after readable) = Continue (Some (2 ^ a))"
    by (simp add: attempt_step_def)
  with send_attempts_after_post [OF s assms(3)]
  have "q = request c"
    and "\<exists>ev'. ys = Sleep (2 ^ a) # ev'
          \<and> (if int (Suc a) < max_retries client
             then \<exists>y ev''. ev' = Post (request c) (Suc a) y # ev''
             else ev' = [] \<and> result c = Inl SpringIntegrationError)"
    by (auto simp: after_post_def)
  with facts(1,2) show ?thesis by simp
qed

text \<open>
  An instance: one batch, a 429 answer with \<open>retryAfter = 5\<close>, then 200.
\<close>

theorem rate_limited_backoff_witness:
  "events (hd (fst (example_delivery rate_limited_once [[example_entry ''a'']])))
     = [] @ Post (request (hd (fst (example_delivery rate_limited_once [[example_entry ''a'']])))) 0
               (Response 429 (Some 5) True)
          # [Sleep 1, Post (request (hd (fst (example_delivery rate_limited_once [[example_entry ''a'']])))) 1
               (Response 200 None True)]
   \<and> Sleep 1 = Sleep (2 ^ 0)
   \<and> map (\<lambda>c. batch_number (request c)) (fst (example_delivery rate_limited_once [[example_entry ''a'']])) = [1]
   \<and> map result (fst (example_delivery rate_limited_once [[example_entry ''a'']])) = [Inr ()]"
proof -
  let ?run = "example_delivery rate_limited_once [[example_entry ''a'']]"
  let ?c = "hd (fst ?run)"
  have run: "send_batches_to_spring rate_limited_once (\<lambda>k. 0) ''task'' ''/data'' ''user_task''
       [[example_entry ''a'']] BALANCED None example_client 0 = (fst ?run, snd ?run)"
    by (simp add: example_delivery_def)
  have calls: "fst ?run =
      [Delivery \<lparr>task_id = ''task'', batch_number = 1, total_batches = 1,
           directory = ''/data'', user_id = ''user_task'', strategy = BALANCED, max_cost_budget = None,
           generated_at = 0, entries = [example_entry ''a'']\<rparr> (Inr ())
         [Post \<lparr>task_id = ''task'', batch_number = 1, total_batches = 1,
           directory = ''/data'', user_id = ''user_task'', strategy = BALANCED, max_cost_budget = None,
           generated_at = 0, entries = [example_entry ''a'']\<rparr> 0 (Response 429 (Some 5) True),
          Sleep 1,
          Post \<lparr>task_id = ''task'', batch_number = 1, total_batches = 1,
           directory = ''/data'', user_id = ''user_task'', strategy = BALANCED, max_cost_budget = None,
           generated_at = 0, entries = [example_entry ''a'']\<rparr> 1 (Response 200 None True)]]"
    by (simp add: run_simps rate_limited_once_def)
  have mem: "?c \<in> set (fst ?run)" by (simp add: calls)
  have ev: "events ?c = [] @ Post (request ?c) 0 (Response 429 (Some 5) True)
          # [Sleep 1, Post (request ?c) 1 (Response 200 None True)]"
    by (simp add: calls)
  from rate_limited_backoff [OF run mem ev] ev
  show ?thesis by (simp add: calls)
qed

section \<open>Properties of the task storage\<close>

text \<open>
  C3, as the spec states it, fails on the code: with every batch accepted the stored
  status is \<open>PROCESSING\<close>, not Completed, and with a rejected batch it is \<open>PROCESSING\<close>
  as well.
\<close>

theorem status_not_completed_counterexample:
  "all_batches_accepted (fst (snd (example_task (\<lambda>k. Response 200 None True)))) ''task''
       (snd (snd (example_task (\<lambda>k. Response 200 None True))))
   \<and> \<not> completed (fst (snd (example_task (\<lambda>k. Response 200 None True)))) ''task''
   \<and> map_option status (fst (snd (example_task (\<lambda>k. Response 200 None True))) ''task'')
       = Some ''PROCESSING''
   \<and> map result (snd (snd (example_task (\<lambda>k. Response 401 None True))))
       = [Inl SpringIntegrationError]
   \<and> map_option status (fst (snd (example_task (\<lambda>k. Response 401 None True))) ''task'')
       = Some ''PROCESSING''"
  by (simp add: task_simps fs_simps run_simps)

text \<open>
  C3, amended. A request to \<open>/organize\<close> either is refused and leaves the storage as it
  was, or is answered with 202 and stores the task with the status \<open>PROCESSING\<close>; the
  delivery of the batches never changes that status, whatever the outcome of the batches,
  so the stored status is never Completed.
\<close>

theorem task_status_stays_processing:
  assumes "run_task fs h srv clock client tid now req storage = (resp, storage', calls)"
  shows "(\<exists>code. resp = HTTPException code \<and> storage' = storage \<and> calls = [])
     \<or> (\<exists>nf nb t. resp = JSONResponse 202 tid ''PROCESSING'' nf nb
           \<and> storage' = storage(tid \<mapsto> t) \<and> status t = ''PROCESSING''
           \<and> total_files t = nf \<and> task_total_batches t = nb
           \<and> length calls \<le> nb
           \<and> \<not> completed storage' tid)"
proof (cases "resolve_directory fs (request_path req)")
  case (Inl e)
  with assms show ?thesis by (auto simp: run_task_def organize_folder_def)
next
  case (Inr dir)
  note dir = this
  let ?files = "collect_and_extract_files h (rglob fs dir)"
  show ?thesis
  proof (cases "chunk_files ?files (get_batch_size (request_strategy req))")
    case (Inl e)
    with dir assms show ?thesis by (auto simp: run_task_def organize_folder_def Let_def)
  next
    case (Inr batches)
    let ?t = "\<lparr>status = ''PROCESSING'', task_directory = dir, total_files = length ?files,
               task_total_batches = length batches, created_at = now\<rparr>"
    let ?send = "send_batches_to_spring srv clock tid dir (''user_'' @ take 12 tid) batches
        (request_strategy req) (request_max_cost_budget req) client 0"
    from assms dir Inr have r: "resp = JSONResponse 202 tid ''PROCESSING'' (length ?files) (length batches)"
      and s: "storage' = storage(tid \<mapsto> ?t)" and c: "calls = fst ?send"
      by (auto simp: run_task_def organize_folder_def Let_def)
    have "?send = (calls, snd ?send)" using c by simp
    from send_batches_length [OF this] have "length calls \<le> length batches" .
    with r s show ?thesis by (auto simp: completed_def)
  qed
qed

text \<open>
  An instance: a directory of one file, every batch accepted.
\<close>

theorem task_status_stays_processing_witness:
  "fst (example_task (\<lambda>k. Response 200 None True)) = JSONResponse 202 ''task'' ''PROCESSING'' 1 1
   \<and> map_option status (fst (snd (example_task (\<lambda>k. Response 200 None True))) ''task'')
       = Some ''PROCESSING''
   \<and> \<not> completed (fst (snd (example_task (\<lambda>k. Response 200 None True)))) ''task''
   \<and> length (snd (snd (example_task (\<lambda>k. Response 200 None True)))) = 1"
proof -
  let ?run = "example_task (\<lambda>k. Response 200 None True)"
  have run: "run_task example_fs failing_handlers (\<lambda>k. Response 200 None True) (\<lambda>k. 0)
      example_client ''task'' 0 example_organization_request Map.empty
      = (fst ?run, fst (snd ?run), snd (snd ?run))"
    by (simp add: example_task_def)
  have v: "fst ?run = JSONResponse 202 ''task'' ''PROCESSING'' 1 1"
    "length (snd (snd ?run)) = 1"
    by (simp_all add: task_simps fs_simps run_simps)
  from task_status_stays_processing [OF run] v(1)
  have "\<exists>t. fst (snd ?run) = Map.empty(''task'' \<mapsto> t) \<and> status t = ''PROCESSING''
      \<and> \<not> completed (fst (snd ?run)) ''task''"
    by auto
  with v show ?thesis by auto
qed

section \<open>Properties of the traversal\<close>

text \<open>
  C8, as the spec states it, fails on the code: a path whose \<open>stat\<close> raises (a dangling
  link) and a file whose modification time is outside the years 1 to 9999 are dropped by
  the outer \<open>except\<close>, and a file whose name starts with a dot is skipped before its type
  is looked at; none of the three has a handler, and none gets a record.
\<close>

theorem no_record_counterexample:
  "\<not> has_handler (get_file_type (dangling_link ''link.dat'' ''.dat''))
   \<and> collect_and_extract_files failing_handlers [dangling_link ''link.dat'' ''.dat''] = []
   \<and> \<not> has_handler (get_file_type (ancient_file ''old.txt'' ''.txt''))
   \<and> collect_and_extract_files failing_handlers [ancient_file ''old.txt'' ''.txt''] = []
   \<and> \<not> has_handler (get_file_type (regular_file ''.notes'' ''''))
   \<and> collect_and_extract_files failing_handlers [regular_file ''.notes'' ''''] = []"
  by (simp add: fs_simps)

lemma collect_append:
  "collect_and_extract_files h (xs @ ys) = collect_and_extract_files h xs @ collect_and_extract_files h ys"
  by (induction xs) (simp_all split: option.splits)

lemma extract_metadata_empty:
  "\<not> has_handler ft \<or> (ft = get_file_type p \<and> handler_raises h p) \<Longrightarrow> extract_metadata h p ft = ([], None, 0)"
  by (auto simp: extract_metadata_def has_handler_def handler_raises_def)

text \<open>
  C8, amended. For every path whose name does not start with a dot, whose \<open>stat\<close>
  succeeds and whose modification time \<open>datetime.fromtimestamp\<close> accepts, if its type has
  no extraction handler or its handler raises an \<open>Exception\<close>, then a record is still
  produced for it, with no keyword, no caption and confidence 0; the traversal itself
  returns (it is a total function), and the records of the paths before and after it are
  what they are without it.
\<close>

theorem extraction_failure_isolated:
  assumes "\<not> hidden p" and "stat p = Some (st_size, st_mtime)"
    and "fromtimestamp st_mtime = Some mtime"
    and "\<not> has_handler (get_file_type p) \<or> handler_raises h p"
  shows "\<exists>e. collect_and_extract_files h (before @ p # after)
            = collect_and_extract_files h before @ e # collect_and_extract_files h after
          \<and> absolute_path e = str p \<and> keywords e = [] \<and> caption e = None \<and> confidence e = 0"
proof -
  from assms(4) have "extract_metadata h p (get_file_type p) = ([], None, 0)"
    by (intro extract_metadata_empty) auto
  with assms(1,2,3) have "\<exists>e. file_entry h p = Some e \<and> absolute_path e = str p \<and> keywords e = []
      \<and> caption e = None \<and> confidence e = 0"
    by (simp add: file_entry_def)
  then obtain e where "file_entry h p = Some e" "absolute_path e = str p" "keywords e = []"
      "caption e = None" "confidence e = 0" by blast
  then show ?thesis by (auto simp: collect_append)
qed

text \<open>
  An instance: a PDF whose handler raises, between a file of unknown type and a markdown
  file. All three get a record with no keyword.
\<close>

theorem extraction_failure_isolated_witness:
  "\<not> hidden (regular_file ''scan.pdf'' ''.pdf'')
   \<and> stat (regular_file ''scan.pdf'' ''.pdf'') = Some (12, 0)
   \<and> fromtimestamp 0 = Some 0
   \<and> handler_raises failing_handlers (regular_file ''scan.pdf'' ''.pdf'')
   \<and> map keywords (collect_and_extract_files failing_handlers
        ([regular_file ''a.xyz'' ''.xyz''] @ regular_file ''scan.pdf'' ''.pdf'' # [regular_file ''b.md'' ''.md'']))
       = [[], [], []]
   \<and> map absolute_path (collect_and_extract_files failing_handlers
        ([regular_file ''a.xyz'' ''.xyz''] @ regular_file ''scan.pdf'' ''.pdf'' # [regular_file ''b.md'' ''.md'']))
       = [''/data/a.xyz'', ''/data/scan.pdf'', ''/data/b.md'']"
proof -
  have h1: "\<not> hidden (regular_file ''scan.pdf'' ''.pdf'')" by (simp add: fs_simps)
  have h2: "stat (regular_file ''scan.pdf'' ''.pdf'') = Some (12, 0)" by (simp add: fs_simps)
  have ht: "fromtimestamp 0 = Some 0" by (simp add: fs_simps)
  have h3: "handler_raises failing_handlers (regular_file ''scan.pdf'' ''.pdf'')"
    by (simp add: fs_simps)
  have h3': "\<not> has_handler (get_file_type (regular_file ''scan.pdf'' ''.pdf''))
      \<or> handler_raises failing_handlers (regular_file ''scan.pdf'' ''.pdf'')"
    using h3 by simp
  have b: "collect_and_extract_files failing_handlers [regular_file ''a.xyz'' ''.xyz'']
      = [\<lparr>relative_path = ''a.xyz'', absolute_path = ''/data/a.xyz'', is_directory = False,
          size_bytes = 12, modified_at = 0, is_development = False, file_type = None,
          keywords = [], caption = None, confidence = 0\<rparr>]"
    by (simp add: fs_simps)
  have a: "collect_and_extract_files failing_handlers [regular_file ''b.md'' ''.md'']
      = [\<lparr>relative_path = ''b.md'', absolute_path = ''/data/b.md'', is_directory = False,
          size_bytes = 12, modified_at = 0, is_development = False, file_type = Some ''markdown'',
          keywords = [], caption = None, confidence = 0\<rparr>]"
    by (simp add: fs_simps)
  have s: "str (regular_file ''scan.pdf'' ''.pdf'') = ''/data/scan.pdf''" by (simp add: fs_simps)
  from extraction_failure_isolated [OF h1 h2 ht h3', of "[regular_file ''a.xyz'' ''.xyz'']"
      "[regular_file ''b.md'' ''.md'']"]
  obtain e where "collect_and_extract_files failing_handlers
        ([regular_file ''a.xyz'' ''.xyz''] @ regular_file ''scan.pdf'' ''.pdf'' # [regular_file ''b.md'' ''.md''])
      = collect_and_extract_files failing_handlers [regular_file ''a.xyz'' ''.xyz'']
          @ e # collect_and_extract_files failing_handlers [regular_file ''b.md'' ''.md'']"
    "absolute_path e = str (regular_file ''scan.pdf'' ''.pdf'')" "keywords e = []"
    by blast
  with a b s h1 h2 ht h3 show ?thesis by simp
qed




section \<open>Properties of the frontend client\<close>

text \<open>
  For an argument other than \<open>NaN\<close> the value sent lies between 10 and 500; the two
  functions send the same value; an omitted argument sends 100; a finite argument is
  clamped.
\<close>

lemma page_size_clamped:
  assumes "arg \<noteq> Some NaN"
  shows "in_page_range (inspectAndOrganizeFolder_page_size arg)"
    and "inspectAndOrganizeWithGeneration_page_size arg = inspectAndOrganizeFolder_page_size arg"
    and "arg = None \<Longrightarrow> inspectAndOrganizeFolder_page_size arg = Finite 100"
    and "arg = Some (Finite x) \<Longrightarrow> inspectAndOrganizeFolder_page_size arg = Finite (max 10 (min x 500))"
proof -
  show "in_page_range (inspectAndOrganizeFolder_page_size arg)"
  proof (cases arg)
    case None
    then show ?thesis by (simp add: inspectAndOrganizeFolder_page_size_def)
  next
    case (Some v)
    with assms show ?thesis
      by (cases v) (simp_all add: inspectAndOrganizeFolder_page_size_def)
  qed
qed (simp_all add: inspectAndOrganizeFolder_page_size_def inspectAndOrganizeWithGeneration_page_size_def)

text \<open>
  C10 on the input \<open>NaN\<close>: both functions send \<open>NaN\<close>, which is outside the range
  10 to 500.
\<close>

theorem page_size_nan_passes_through:
  "inspectAndOrganizeFolder_page_size (Some NaN) = NaN
   \<and> inspectAndOrganizeWithGeneration_page_size (Some NaN) = NaN
   \<and> \<not> in_page_range (inspectAndOrganizeFolder_page_size (Some NaN))
   \<and> \<not> in_page_range (inspectAndOrganizeWithGeneration_page_size (Some NaN))"
  by (simp add: inspectAndOrganizeFolder_page_size_def inspectAndOrganizeWithGeneration_page_size_def)

end
